theory Spec2Isabelle
  imports Complex_Main "HOL-Library.Word"
begin

unbundle bit_operations_syntax

section \<open>Conventions of the embedding\<close>

text \<open>
  The Butterfly audio library is header-only C++20. \<^verbatim>\<open>int\<close> and
  \<^verbatim>\<open>unsigned int\<close> are \<^typ>\<open>32 word\<close>, \<^verbatim>\<open>ptrdiff_t\<close> is \<^typ>\<open>64 word\<close>.
  Loop counters that provably stay small are \<^typ>\<open>nat\<close>. A failed \<^verbatim>\<open>assert\<close>, a
  failed \<^verbatim>\<open>static_assert\<close> and undefined behaviour (a null or out-of-range access,
  a division by zero, a float-to-integer cast whose value does not fit) are values of the
  type \<open>fault\<close>; every operation that can reach one returns \<open>fault + result\<close>.

  The numeric template parameters \<^verbatim>\<open>T\<close> and \<^verbatim>\<open>ParamType\<close> are instantiated
  with \<^verbatim>\<open>double\<close>. A \<^verbatim>\<open>double\<close> is embedded as the \<^typ>\<open>real\<close> it denotes.
  Wherever the code takes a decision from a floating-point value (the cutoff index of
  \<^verbatim>\<open>antialiase_dft\<close>, the assertion of \<^verbatim>\<open>setFrequency\<close>, the position and the
  increment of the oscillator), every operation of the source rounds its exact result
  with \<open>double_round\<close> below, operation by operation and in the order of the source
  (no extended precision, no fused multiply-add). The sample values themselves (the
  transforms on \<^verbatim>\<open>std::complex<T>\<close>, embedded as \<^typ>\<open>complex\<close>, the interpolation
  of a table and the blend of the morphing oscillator) are computed exactly: no decision
  of the code depends on them.
\<close>

type_synonym u32 = "32 word"
type_synonym i64 = "64 word"

datatype fault = AssertionFailed | StaticAssertFailed | UndefinedBehaviour

fun traverse :: "('a \<Rightarrow> fault + 'b) \<Rightarrow> 'a list \<Rightarrow> fault + 'b list" where
  "traverse f [] = Inr []"
| "traverse f (x # xs) =
     (case f x of
        Inl e \<Rightarrow> Inl e
      | Inr y \<Rightarrow> (case traverse f xs of Inl e \<Rightarrow> Inl e | Inr ys \<Rightarrow> Inr (y # ys)))"

section \<open>Double-precision arithmetic\<close>

text \<open>
  Rounding to the nearest \<^verbatim>\<open>double\<close> (IEEE 754 binary64), ties to the even
  significand. A finite \<^verbatim>\<open>double\<close> is an integer multiple \<open>m * 2^j / 2^1074\<close> of
  the smallest subnormal with \<open>\<bar>m\<bar> < 2^53\<close>. For a real \<open>x\<close>, \<open>ulp_exponent x\<close> is
  the \<open>j\<close> of its binade: the number of bits of \<open>\<lfloor>\<bar>x\<bar> * 2^1074\<rfloor>\<close> beyond 53, which is
  0 throughout the subnormal range. \<open>double_round x\<close> rounds \<open>x * 2^1074 / 2^j\<close> to
  an integer and scales back. The exponent range is not bounded above: a result beyond
  the largest finite \<^verbatim>\<open>double\<close> (\<open>2^1024 - 2^971\<close>), where the code holds an infinity,
  is kept as the rounded real, and the statements that depend on it bound their inputs.
\<close>

function bit_length :: "int \<Rightarrow> nat" where
  "bit_length n = (if n \<le> 0 then 0 else Suc (bit_length (n div 2)))"
  by pat_completeness auto
termination
  by (relation "measure nat") auto

declare bit_length.simps [simp del]

definition round_half_even :: "real \<Rightarrow> int" where
  "round_half_even x =
     (let n = \<lfloor>x\<rfloor> in
      if x - of_int n < 1 / 2 then n
      else if x - of_int n > 1 / 2 then n + 1
      else if even n then n else n + 1)"

definition double_scale :: real where
  "double_scale = 2 ^ 1074"

definition ulp_exponent :: "real \<Rightarrow> nat" where
  "ulp_exponent x = bit_length \<lfloor>\<bar>x\<bar> * double_scale\<rfloor> - 53"

definition double_round :: "real \<Rightarrow> real" where
  "double_round x =
     (let j = ulp_exponent x
      in of_int (round_half_even (x * double_scale / 2 ^ j)) * 2 ^ j / double_scale)"

text \<open>The finite values of the type \<^verbatim>\<open>double\<close>.\<close>

definition is_double :: "real \<Rightarrow> bool" where
  "is_double x \<longleftrightarrow> double_round x = x \<and> \<bar>x\<bar> < 2 ^ 1024"

text \<open>The conversion of a \<^verbatim>\<open>size_t\<close> to \<^verbatim>\<open>double\<close>.\<close>

definition double_of_nat :: "nat \<Rightarrow> real" where
  "double_of_nat n = double_round (real n)"

section \<open>optimized\_math.h\<close>

text \<open>\<^verbatim>\<open>isPowerOf2(x)\<close>: \<^verbatim>\<open>!(x & (x - 1)) && x > 0\<close> on a signed integer.\<close>

definition isPowerOf2 :: "'a::len word \<Rightarrow> bool" where
  "isPowerOf2 x \<longleftrightarrow> x AND (x - 1) = 0 \<and> 0 <s x"

definition deBruijnBitPosition2 :: "int list" where
  "deBruijnBitPosition2 =
     [0, 1, 28, 2, 29, 14, 24, 3, 30, 22, 20, 15, 25, 17, 4, 8,
      31, 27, 13, 23, 21, 19, 16, 7, 26, 12, 18, 6, 11, 5, 10, 9]"

text \<open>
  \<^verbatim>\<open>log2OfPowerOf2(x)\<close> for \<^verbatim>\<open>T = int\<close>: the product with the unsigned constant
  is unsigned and wraps; the shifted value is below 32, so the table access is in range.
\<close>

definition log2OfPowerOf2 :: "u32 \<Rightarrow> fault + int" where
  "log2OfPowerOf2 x =
     (if \<not> isPowerOf2 x then Inl AssertionFailed
      else Inr (deBruijnBitPosition2 ! unat (drop_bit 27 (x * 0x077CB531))))"

text \<open>
  \<^verbatim>\<open>bitReverse(x, nb)\<close> instantiated at \<^verbatim>\<open>unsigned int\<close> (the call of
  \<^verbatim>\<open>detail::fft\<close>): every shift is logical.
\<close>

definition bitReverse :: "u32 \<Rightarrow> int \<Rightarrow> fault + u32" where
  "bitReverse x0 nb =
    (if \<not> (nb > 0 \<and> 32 > nb) then Inl AssertionFailed
     else
       let x1 = push_bit 16 x0 OR drop_bit 16 x0;
           x2 = push_bit 8 (x1 AND 0x00FF00FF) OR drop_bit 8 (x1 AND 0xFF00FF00);
           x3 = push_bit 4 (x2 AND 0x0F0F0F0F) OR drop_bit 4 (x2 AND 0xF0F0F0F0);
           x4 = push_bit 2 (x3 AND 0x33333333) OR drop_bit 2 (x3 AND 0xCCCCCCCC);
           x5 = push_bit 1 (x4 AND 0x55555555) OR drop_bit 1 (x4 AND 0xAAAAAAAA)
       in Inr (drop_bit (nat (32 - nb)) x5 AND drop_bit (nat (32 - nb)) 0xFFFFFFFF))"

text \<open>
  \<^verbatim>\<open>bitReverse(x, nb)\<close> instantiated at \<^verbatim>\<open>int\<close> (the call of the
  \<^verbatim>\<open>FFTCalculator\<close> constructor, whose counter is an \<^verbatim>\<open>int\<close>). The masks
  \<^verbatim>\<open>0xFF00FF00\<close>, \<^verbatim>\<open>0xF0F0F0F0\<close>, \<^verbatim>\<open>0xCCCCCCCC\<close>, \<^verbatim>\<open>0xAAAAAAAA\<close> and
  \<^verbatim>\<open>0xFFFFFFFF\<close> are unsigned literals, so the shifts applied to their conjunctions are
  logical; the two shifts applied to \<^verbatim>\<open>x\<close> itself (first and last line) are
  arithmetic. Left shifts of a signed value wrap in C++20.
\<close>

definition bitReverse_int :: "u32 \<Rightarrow> int \<Rightarrow> fault + u32" where
  "bitReverse_int x0 nb =
    (if \<not> (nb > 0 \<and> 32 > nb) then Inl AssertionFailed
     else
       let x1 = push_bit 16 x0 OR signed_drop_bit 16 x0;
           x2 = push_bit 8 (x1 AND 0x00FF00FF) OR drop_bit 8 (x1 AND 0xFF00FF00);
           x3 = push_bit 4 (x2 AND 0x0F0F0F0F) OR drop_bit 4 (x2 AND 0xF0F0F0F0);
           x4 = push_bit 2 (x3 AND 0x33333333) OR drop_bit 2 (x3 AND 0xCCCCCCCC);
           x5 = push_bit 1 (x4 AND 0x55555555) OR drop_bit 1 (x4 AND 0xAAAAAAAA)
       in Inr (signed_drop_bit (nat (32 - nb)) x5 AND drop_bit (nat (32 - nb)) 0xFFFFFFFF))"

section \<open>fft.h\<close>

datatype FFTDirection = Forward | Backward

fun direction_value :: "FFTDirection \<Rightarrow> real" where
  "direction_value Forward = 1"
| "direction_value Backward = - 1"

text \<open>
  The innermost loop \<^verbatim>\<open>for (k = j; k < N; k += m)\<close> of every transform, with
  \<^verbatim>\<open>m2 = 1 << s\<close> and \<^verbatim>\<open>m = m2 << 1\<close>. An access outside the buffer is undefined
  behaviour.
\<close>

function butterfly_k :: "nat \<Rightarrow> nat \<Rightarrow> complex \<Rightarrow> nat \<Rightarrow> complex list \<Rightarrow> fault + complex list" where
  "butterfly_k N s w k out =
     (if k < N then
        (if k + 2 ^ s < length out then
           let t = w * out ! (k + 2 ^ s);
               u = out ! k
           in butterfly_k N s w (k + 2 * 2 ^ s) (out[k := u + t, k + 2 ^ s := u - t])
         else Inl UndefinedBehaviour)
      else Inr out)"
  by pat_completeness auto
termination
proof (relation "measure (\<lambda>(N, s, w, k, out). N - k)")
  fix N s k :: nat
  assume "k < N"
  moreover have "0 < (2::nat) * 2 ^ s" by simp
  ultimately have "N - (k + 2 * 2 ^ s) < N - k" by linarith
  then show "((N, s, w, k + 2 * 2 ^ s, out'), (N, s, w, k, out))
      \<in> measure (\<lambda>(N, s, w, k, out). N - k)" for w :: complex and out out' :: "complex list"
    by simp
qed simp

text \<open>The loop \<^verbatim>\<open>for (j = 0; j < m2; ++j) { ...; w *= wm; }\<close>.\<close>

function butterfly_j :: "nat \<Rightarrow> nat \<Rightarrow> complex \<Rightarrow> complex \<Rightarrow> nat \<Rightarrow> complex list \<Rightarrow> fault + complex list" where
  "butterfly_j N s wm w j out =
     (if j < 2 ^ s then
        (case butterfly_k N s w j out of
           Inl e \<Rightarrow> Inl e
         | Inr out' \<Rightarrow> butterfly_j N s wm (w * wm) (j + 1) out')
      else Inr out)"
  by pat_completeness auto
termination
  by (relation "measure (\<lambda>(N, s, wm, w, j, out). 2 ^ s - j)") (auto intro: diff_less_mono2)

text \<open>
  The loop over the stages \<^verbatim>\<open>for (s = 0; s < log_n; ++s)\<close>; \<open>wm s\<close> is the rotation
  of stage \<open>s\<close> and \<^verbatim>\<open>w\<close> starts at \<^verbatim>\<open>(1, 0)\<close> in every stage.
\<close>

function butterfly_s :: "nat \<Rightarrow> nat \<Rightarrow> (nat \<Rightarrow> complex) \<Rightarrow> nat \<Rightarrow> complex list \<Rightarrow> fault + complex list" where
  "butterfly_s N log_n wm s out =
     (if s < log_n then
        (case butterfly_j N s (wm s) 1 0 out of
           Inl e \<Rightarrow> Inl e
         | Inr out' \<Rightarrow> butterfly_s N log_n wm (s + 1) out')
      else Inr out)"
  by pat_completeness auto
termination
  by (relation "measure (\<lambda>(N, log_n, wm, s, out). log_n - s)") (auto intro: diff_less_mono2)

declare butterfly_k.simps [simp del] butterfly_j.simps [simp del] butterfly_s.simps [simp del]

text \<open>Reading \<^verbatim>\<open>in[i]\<close> through an iterator: outside the range it is undefined.\<close>

definition read_at :: "'a list \<Rightarrow> int \<Rightarrow> fault + 'a" where
  "read_at xs i = (if 0 \<le> i \<and> i < int (length xs) then Inr (xs ! nat i) else Inl UndefinedBehaviour)"

text \<open>
  \<^verbatim>\<open>detail::fft(in_first, in_last, out, dir)\<close>. The size is a \<^verbatim>\<open>ptrdiff_t\<close>,
  checked by \<^verbatim>\<open>isPowerOf2\<close> and then cast to \<^verbatim>\<open>int\<close>; the counter of the first
  loop is an \<^verbatim>\<open>unsigned int\<close>. \<^verbatim>\<open>std::polar(1, a)\<close> is \<^term>\<open>cis a\<close>.
\<close>

definition detail_fft :: "complex list \<Rightarrow> FFTDirection \<Rightarrow> fault + complex list" where
  "detail_fft input dir =
     (let size = length input in
      if \<not> isPowerOf2 (word_of_nat size :: i64) then Inl AssertionFailed
      else
        case log2OfPowerOf2 (word_of_nat size :: u32) of
          Inl e \<Rightarrow> Inl e
        | Inr log_n \<Rightarrow>
            let nrm = 1 / sqrt (real size) in
            case traverse
                   (\<lambda>i. case bitReverse (word_of_nat i) log_n of
                           Inl e \<Rightarrow> Inl e
                         | Inr r \<Rightarrow>
                             (case read_at input (uint r) of
                                Inl e \<Rightarrow> Inl e
                              | Inr v \<Rightarrow> Inr (complex_of_real nrm * v)))
                   [0..<size] of
              Inl e \<Rightarrow> Inl e
            | Inr out \<Rightarrow>
                butterfly_s size (nat log_n)
                  (\<lambda>s. cis (direction_value dir * pi / 2 ^ s)) 0 out)"

definition fft :: "complex list \<Rightarrow> fault + complex list" where
  "fft input = detail_fft input Forward"

definition ifft :: "complex list \<Rightarrow> fault + complex list" where
  "ifft input = detail_fft input Backward"

text \<open>
  \<^verbatim>\<open>FFTCalculator<T, N>\<close>: the template parameter \<^verbatim>\<open>N\<close>, the constant
  \<^verbatim>\<open>log_n\<close> and the members \<^verbatim>\<open>nrm\<close>, \<^verbatim>\<open>butterfly_indices\<close> and \<^verbatim>\<open>z\<close>.
\<close>

record FFTCalculator =
  size_N :: nat
  log_n :: nat
  nrm :: real
  butterfly_indices :: "int list"
  z :: "complex list"

text \<open>
  The constructor, after \<^verbatim>\<open>static_assert(isPowerOf2(N))\<close> and the initialiser of
  \<^verbatim>\<open>log_n\<close>. Its first loop calls \<^verbatim>\<open>bitReverse\<close> at \<^verbatim>\<open>int\<close>.
\<close>

definition FFTCalculator_new :: "u32 \<Rightarrow> fault + FFTCalculator" where
  "FFTCalculator_new N =
     (if \<not> isPowerOf2 N then Inl StaticAssertFailed
      else
        case log2OfPowerOf2 N of
          Inl e \<Rightarrow> Inl e
        | Inr lg \<Rightarrow>
            (case traverse (\<lambda>i. bitReverse_int (word_of_nat i) lg) [0..<unat N] of
               Inl e \<Rightarrow> Inl e
             | Inr idx \<Rightarrow>
                 Inr \<lparr> size_N = unat N,
                       log_n = nat lg,
                       nrm = 1 / sqrt (real (unat N)),
                       butterfly_indices = map sint idx,
                       z = map (\<lambda>s. cis (pi / 2 ^ s)) [0..<nat lg] \<rparr>))"

text \<open>The first loop of the three member transforms: \<^verbatim>\<open>out[i] = nrm * in[butterfly_indices[i]]\<close>.\<close>

definition permute_input :: "FFTCalculator \<Rightarrow> complex list \<Rightarrow> fault + complex list" where
  "permute_input c input =
     traverse
       (\<lambda>i. case read_at (butterfly_indices c) (int i) of
               Inl e \<Rightarrow> Inl e
             | Inr b \<Rightarrow>
                 (case read_at input b of
                    Inl e \<Rightarrow> Inl e
                  | Inr v \<Rightarrow> Inr (complex_of_real (nrm c) * v)))
       [0..<size_N c]"

definition FFTCalculator_fft :: "FFTCalculator \<Rightarrow> complex list \<Rightarrow> fault + complex list" where
  "FFTCalculator_fft c input =
     (case permute_input c input of
        Inl e \<Rightarrow> Inl e
      | Inr out \<Rightarrow> butterfly_s (size_N c) (log_n c) (\<lambda>s. z c ! s) 0 out)"

definition FFTCalculator_ifft :: "FFTCalculator \<Rightarrow> complex list \<Rightarrow> fault + complex list" where
  "FFTCalculator_ifft c input =
     (case permute_input c input of
        Inl e \<Rightarrow> Inl e
      | Inr out \<Rightarrow>
          butterfly_s (size_N c) (log_n c) (\<lambda>s. Complex (Re (z c ! s)) (- Im (z c ! s))) 0 out)"

definition FFTCalculator_ifft_real :: "FFTCalculator \<Rightarrow> complex list \<Rightarrow> fault + real list" where
  "FFTCalculator_ifft_real c input =
     (case permute_input c input of
        Inl e \<Rightarrow> Inl e
      | Inr buf \<Rightarrow>
          (case butterfly_s (size_N c) (log_n c)
                  (\<lambda>s. Complex (Re (z c ! s)) (- Im (z c ! s))) 0 buf of
             Inl e \<Rightarrow> Inl e
           | Inr buf' \<Rightarrow> traverse (\<lambda>i. case read_at buf' (int i) of Inl e \<Rightarrow> Inl e | Inr v \<Rightarrow> Inr (Re v)) [0..<size_N c]))"


section \<open>antialiase.h\<close>

text \<open>
  The first three lines of \<^verbatim>\<open>antialiase_dft\<close>:
  \<^verbatim>\<open>nyquist = samplerate * 0.5\<close>, \<^verbatim>\<open>nyquist_index = nyquist / max_playback_frequency\<close>
  and \<^verbatim>\<open>static_cast<size_t>(std::floor(nyquist_index)) + 1\<close>. The product and the
  quotient are rounded; the floor of a \<^verbatim>\<open>double\<close> is exact. A division by zero yields
  an infinity or a NaN, and the cast of a value whose truncation is not a
  \<^verbatim>\<open>size_t\<close> (64 bits) is undefined. The increment cannot wrap: a \<^verbatim>\<open>double\<close> from
  \<open>2^53\<close> on is an even integer, so the floor is never \<open>2^64 - 1\<close>.
\<close>

definition cutoff_index :: "real \<Rightarrow> real \<Rightarrow> fault + nat" where
  "cutoff_index samplerate max_playback_frequency =
     (let nyquist = double_round (samplerate * (1 / 2)) in
      if max_playback_frequency = 0 then Inl UndefinedBehaviour
      else
        let nyquist_index = double_round (nyquist / max_playback_frequency) in
        if \<lfloor>nyquist_index\<rfloor> < 0 \<or> 2 ^ 64 \<le> \<lfloor>nyquist_index\<rfloor> then Inl UndefinedBehaviour
        else Inr (nat \<lfloor>nyquist_index\<rfloor> + 1))"

text \<open>
  The loop \<^verbatim>\<open>for (it = first + cutoff_index; it != last - cutoff_index + 1; ++it) *it = {}\<close>
  on indices; it stops on equality only, and a write outside the buffer is undefined.
\<close>

function zero_bins :: "nat \<Rightarrow> nat \<Rightarrow> complex list \<Rightarrow> fault + complex list" where
  "zero_bins it end_it spectrum =
     (if it \<noteq> end_it then
        (if it < length spectrum then zero_bins (it + 1) end_it (spectrum[it := 0])
         else Inl UndefinedBehaviour)
      else Inr spectrum)"
  by pat_completeness auto
termination
  by (relation "measure (\<lambda>(it, end_it, spectrum). length spectrum - it)") auto

declare zero_bins.simps [simp del]

text \<open>
  \<^verbatim>\<open>antialiase_dft(first, last, samplerate, max_playback_frequency)\<close> on the buffer
  \<open>[first, last)\<close>, returned updated. Past the guard \<open>cutoff_index \<le> size / 2\<close> holds,
  so \<open>last - cutoff_index + 1\<close> is computed without underflow.
\<close>

definition antialiase_dft :: "complex list \<Rightarrow> real \<Rightarrow> real \<Rightarrow> fault + complex list" where
  "antialiase_dft spectrum samplerate max_playback_frequency =
     (let size = length spectrum in
      case cutoff_index samplerate max_playback_frequency of
        Inl e \<Rightarrow> Inl e
      | Inr cutoff \<Rightarrow>
          if cutoff > size div 2 then Inr spectrum
          else
            (case spectrum of
               [] \<Rightarrow> Inl UndefinedBehaviour
             | first # rest \<Rightarrow>
                 zero_bins cutoff (size - cutoff + 1) (Complex (Re first) 0 # rest)))"

text \<open>
  \<^verbatim>\<open>antialiase(signal_first, freq_first, freq_last, out_table_first, samplerate, fft_calculator)\<close>.
  The locals \<^verbatim>\<open>fft\<close> and \<^verbatim>\<open>copy\<close> are buffers that \<^verbatim>\<open>antialiase_dft\<close> could
  change in place, so they are fields of the loop's state, next to the tables written so
  far. The signal is real; the member \<^verbatim>\<open>fft\<close> multiplies each sample by \<^verbatim>\<open>nrm\<close>
  into a complex buffer.
\<close>

record antialiase_locals =
  fft_buffer :: "complex list"
  copy_buffer :: "complex list"
  out_tables :: "real list list"

fun antialiase_loop :: "FFTCalculator \<Rightarrow> real \<Rightarrow> real list \<Rightarrow> antialiase_locals \<Rightarrow> fault + antialiase_locals" where
  "antialiase_loop c samplerate [] st = Inr st"
| "antialiase_loop c samplerate (freq # freqs) st =
     (let st1 = st\<lparr>copy_buffer := fft_buffer st\<rparr> in
      case antialiase_dft (copy_buffer st1) samplerate freq of
        Inl e \<Rightarrow> Inl e
      | Inr truncated \<Rightarrow>
          let st2 = st1\<lparr>copy_buffer := truncated\<rparr> in
          (case FFTCalculator_ifft_real c (copy_buffer st2) of
             Inl e \<Rightarrow> Inl e
           | Inr table \<Rightarrow>
               antialiase_loop c samplerate freqs (st2\<lparr>out_tables := out_tables st2 @ [table]\<rparr>)))"

definition antialiase :: "real list \<Rightarrow> real list \<Rightarrow> real \<Rightarrow> FFTCalculator \<Rightarrow> fault + real list list" where
  "antialiase signal freqs samplerate c =
     (if length signal < size_N c then Inl UndefinedBehaviour
      else
        case FFTCalculator_fft c (map complex_of_real signal) of
          Inl e \<Rightarrow> Inl e
        | Inr spectrum \<Rightarrow>
            (case antialiase_loop c samplerate freqs
                    \<lparr>fft_buffer = spectrum, copy_buffer = [], out_tables = []\<rparr> of
               Inl e \<Rightarrow> Inl e
             | Inr st \<Rightarrow> Inr (out_tables st)))"

section \<open>wavetable\_oscillator.h\<close>

text \<open>
  Modelled from the spec: the class \<^verbatim>\<open>Wavetable\<close> of \<^verbatim>\<open>wavetable.h\<close>, which is
  not among the sources. The oscillator uses three members of it: \<^verbatim>\<open>size()\<close>,
  \<^verbatim>\<open>getMaximumPlaybackFrequency()\<close> and the interpolating \<^verbatim>\<open>operator()\<close>, whose
  policy is the table's own.
\<close>

record wavetable =
  table_size :: nat
  getMaximumPlaybackFrequency :: real
  interpolate :: "real \<Rightarrow> real"

text \<open>
  \<^verbatim>\<open>ForwardSearchTableSelector::selectTable(begin, end, frequency)\<close>: iterators are
  indices into the storage, \<^verbatim>\<open>end\<close> is its length.
\<close>

fun ForwardSearch_loop :: "wavetable list \<Rightarrow> real \<Rightarrow> nat \<Rightarrow> nat" where
  "ForwardSearch_loop [] frequency it = it"
| "ForwardSearch_loop (t # ts) frequency it =
     (if getMaximumPlaybackFrequency t \<ge> frequency then it
      else ForwardSearch_loop ts frequency (it + 1))"

definition ForwardSearch_selectTable :: "wavetable list \<Rightarrow> real \<Rightarrow> nat" where
  "ForwardSearch_selectTable tables frequency = ForwardSearch_loop tables frequency 0"

text \<open>
  The members of \<^verbatim>\<open>WavetableOscillator\<close>. The pointer \<^verbatim>\<open>wavetables\<close> is the
  pointed-to storage (\<open>None\<close> is the null pointer), which nothing changes during
  playback; the pointer \<^verbatim>\<open>currentTable\<close> is an index into it. The member
  \<^verbatim>\<open>value\<close> is called \<open>current_value\<close>.
\<close>

record WavetableOscillator =
  sampleRateInv :: real
  frequency :: real
  delta :: real
  currentSamplePosition :: real
  current_value :: real
  wavetables :: "wavetable list option"
  currentTable :: "nat option"
  currentTableSize :: nat
  topFreq :: real
  bottomFreq :: real

definition WavetableOscillator_default :: WavetableOscillator where
  "WavetableOscillator_default =
     \<lparr> sampleRateInv = 0, frequency = 0, delta = 0, currentSamplePosition = 0,
       current_value = 0, wavetables = None, currentTable = None, currentTableSize = 0,
       topFreq = 0, bottomFreq = 0 \<rparr>"

text \<open>\<^verbatim>\<open>(*currentTable)(static_cast<T>(currentSamplePosition))\<close>.\<close>

definition read_current_table :: "WavetableOscillator \<Rightarrow> fault + real" where
  "read_current_table s =
     (case (wavetables s, currentTable s) of
        (Some tables, Some i) \<Rightarrow>
          if i < length tables then Inr (interpolate (tables ! i) (currentSamplePosition s))
          else Inl UndefinedBehaviour
      | _ \<Rightarrow> Inl UndefinedBehaviour)"

text \<open>
  \<^verbatim>\<open>selectTable()\<close>. The rescaled position is
  \<^verbatim>\<open>currentSamplePosition * static_cast<double>(newTableSize) / static_cast<double>(oldTableSize)\<close>,
  a product and a quotient, each rounded; the upper clamp \<^verbatim>\<open>newTableSize - 1.e-7\<close> is
  the rounded difference of the converted size and the \<^verbatim>\<open>double\<close> nearest to
  \<open>10^-7\<close>.
\<close>

definition selectTable :: "WavetableOscillator \<Rightarrow> fault + WavetableOscillator" where
  "selectTable s =
     (if frequency s \<le> topFreq s \<and> frequency s > bottomFreq s then Inr s
      else
        case wavetables s of
          None \<Rightarrow> Inl AssertionFailed
        | Some tables \<Rightarrow>
            if \<not> length tables > 0 then Inl AssertionFailed
            else
              let found = ForwardSearch_selectTable tables (frequency s);
                  it = (if found = length tables then found - 1 else found);
                  newTable = tables ! it;
                  position =
                    (if currentTableSize s \<noteq> 0 then
                       let oldTableSize = currentTableSize s;
                           newTableSize = table_size newTable;
                           rescaled =
                             double_round
                               (double_round (currentSamplePosition s * double_of_nat newTableSize)
                                  / double_of_nat oldTableSize)
                       in max 0 (min (double_round (double_of_nat newTableSize - double_round (1 / 10 ^ 7)))
                                   rescaled)
                     else currentSamplePosition s)
              in
                if \<not> table_size newTable > 0 then Inl AssertionFailed
                else
                  Inr (s\<lparr> currentSamplePosition := position,
                          currentTable := Some it,
                          currentTableSize := table_size newTable,
                          current_value := interpolate newTable position,
                          topFreq := getMaximumPlaybackFrequency newTable,
                          bottomFreq :=
                            (if it = 0 then 0
                             else getMaximumPlaybackFrequency (tables ! (it - 1))) \<rparr>))"

text \<open>
  \<^verbatim>\<open>updateDelta()\<close>: \<^verbatim>\<open>frequency * currentTableSize * sampleRateInv\<close>, two products
  from left to right, each rounded.
\<close>

definition updateDelta :: "WavetableOscillator \<Rightarrow> WavetableOscillator" where
  "updateDelta s =
     s\<lparr> delta := double_round
                    (double_round (frequency s * double_of_nat (currentTableSize s)) * sampleRateInv s) \<rparr>"

text \<open>
  \<^verbatim>\<open>setFrequency(frequency)\<close>: the assertion compares the rounded product
  \<^verbatim>\<open>frequency * sampleRateInv\<close> with 1.
\<close>

definition setFrequency :: "WavetableOscillator \<Rightarrow> real \<Rightarrow> fault + WavetableOscillator" where
  "setFrequency s f =
     (let s1 = s\<lparr> frequency := f \<rparr> in
      if \<not> double_round (f * sampleRateInv s1) < 1 then Inl AssertionFailed
      else
        case selectTable s1 of
          Inl e \<Rightarrow> Inl e
        | Inr s2 \<Rightarrow> Inr (updateDelta s2))"

definition setTable :: "WavetableOscillator \<Rightarrow> wavetable list option \<Rightarrow> fault + WavetableOscillator" where
  "setTable s tables =
     setFrequency (s\<lparr> wavetables := tables, topFreq := 0, bottomFreq := 0 \<rparr>) (frequency s)"

text \<open>
  \<^verbatim>\<open>setSampleRate\<close> and the constructors store the rounded quotient
  \<^verbatim>\<open>1.0 / sampleRate\<close>; a sample rate of zero gives an infinite
  \<^verbatim>\<open>sampleRateInv\<close> in the source and is a fault here.
\<close>

definition setSampleRate :: "WavetableOscillator \<Rightarrow> real \<Rightarrow> fault + WavetableOscillator" where
  "setSampleRate s sampleRate =
     (if sampleRate = 0 then Inl UndefinedBehaviour
      else setFrequency (s\<lparr> sampleRateInv := double_round (1 / sampleRate) \<rparr>) (frequency s))"

definition WavetableOscillator_new :: "wavetable list option \<Rightarrow> real \<Rightarrow> real \<Rightarrow> fault + WavetableOscillator" where
  "WavetableOscillator_new tables sampleRate f =
     (if sampleRate = 0 then Inl UndefinedBehaviour
      else setTable (WavetableOscillator_default\<lparr> sampleRateInv := double_round (1 / sampleRate),
                                                    frequency := f \<rparr>) tables)"

text \<open>
  The step shared by both increment operators: the sum
  \<^verbatim>\<open>currentSamplePosition += delta\<close> and the difference
  \<^verbatim>\<open>currentSamplePosition -= currentTableSize\<close> are rounded, and the comparison
  converts the size to \<^verbatim>\<open>double\<close>.
\<close>

definition advance :: "WavetableOscillator \<Rightarrow> fault + WavetableOscillator" where
  "advance s =
     (let p = double_round (currentSamplePosition s + delta s);
          p' = (if p \<ge> double_of_nat (currentTableSize s)
                then double_round (p - double_of_nat (currentTableSize s)) else p);
          s1 = s\<lparr> currentSamplePosition := p' \<rparr>
      in case read_current_table s1 of
           Inl e \<Rightarrow> Inl e
         | Inr v \<Rightarrow> Inr (s1\<lparr> current_value := v \<rparr>))"

text \<open>\<^verbatim>\<open>operator++()\<close> returns the new value, \<^verbatim>\<open>operator++(int)\<close> the former one.\<close>

definition pre_increment :: "WavetableOscillator \<Rightarrow> fault + real \<times> WavetableOscillator" where
  "pre_increment s = (case advance s of Inl e \<Rightarrow> Inl e | Inr s' \<Rightarrow> Inr (current_value s', s'))"

definition post_increment :: "WavetableOscillator \<Rightarrow> fault + real \<times> WavetableOscillator" where
  "post_increment s = (case advance s of Inl e \<Rightarrow> Inl e | Inr s' \<Rightarrow> Inr (current_value s, s'))"

definition retrigger :: "WavetableOscillator \<Rightarrow> fault + WavetableOscillator" where
  "retrigger s =
     (let s1 = s\<lparr> currentSamplePosition := 0 \<rparr>
      in case read_current_table s1 of
           Inl e \<Rightarrow> Inl e
         | Inr v \<Rightarrow> Inr (s1\<lparr> current_value := v \<rparr>))"

text \<open>\<^verbatim>\<open>MorpingWavetableOscillator\<close>: two oscillators and the blend parameter.\<close>

record MorpingWavetableOscillator =
  param :: real
  osc1 :: WavetableOscillator
  osc2 :: WavetableOscillator

definition morph_setSampleRate :: "MorpingWavetableOscillator \<Rightarrow> real \<Rightarrow> fault + MorpingWavetableOscillator" where
  "morph_setSampleRate m sampleRate =
     (case setSampleRate (osc1 m) sampleRate of
        Inl e \<Rightarrow> Inl e
      | Inr a \<Rightarrow>
          (case setSampleRate (osc2 m) sampleRate of
             Inl e \<Rightarrow> Inl e
           | Inr b \<Rightarrow> Inr (m\<lparr> osc1 := a, osc2 := b \<rparr>)))"

definition morph_setFrequency :: "MorpingWavetableOscillator \<Rightarrow> real \<Rightarrow> fault + MorpingWavetableOscillator" where
  "morph_setFrequency m f =
     (case setFrequency (osc1 m) f of
        Inl e \<Rightarrow> Inl e
      | Inr a \<Rightarrow>
          (case setFrequency (osc2 m) f of
             Inl e \<Rightarrow> Inl e
           | Inr b \<Rightarrow> Inr (m\<lparr> osc1 := a, osc2 := b \<rparr>)))"

definition morph_setParam :: "MorpingWavetableOscillator \<Rightarrow> real \<Rightarrow> MorpingWavetableOscillator" where
  "morph_setParam m p = m\<lparr> param := p \<rparr>"

text \<open>
  \<^verbatim>\<open>operator++()\<close>: \<^verbatim>\<open>(T(1) - param) * ++osc1 + param * ++osc2\<close>. The two operands
  act on different objects, so their evaluation order does not matter.
\<close>

definition morph_pre_increment :: "MorpingWavetableOscillator \<Rightarrow> fault + real \<times> MorpingWavetableOscillator" where
  "morph_pre_increment m =
     (case pre_increment (osc1 m) of
        Inl e \<Rightarrow> Inl e
      | Inr (v1, a) \<Rightarrow>
          (case pre_increment (osc2 m) of
             Inl e \<Rightarrow> Inl e
           | Inr (v2, b) \<Rightarrow>
               Inr ((1 - param m) * v1 + param m * v2, m\<lparr> osc1 := a, osc2 := b \<rparr>)))"

text \<open>\<^verbatim>\<open>operator++(int)\<close>: \<^verbatim>\<open>(T(1) - param) * osc1++ + param * osc2++\<close>.\<close>

definition morph_post_increment :: "MorpingWavetableOscillator \<Rightarrow> fault + real \<times> MorpingWavetableOscillator" where
  "morph_post_increment m =
     (case post_increment (osc1 m) of
        Inl e \<Rightarrow> Inl e
      | Inr (v1, a) \<Rightarrow>
          (case post_increment (osc2 m) of
             Inl e \<Rightarrow> Inl e
           | Inr (v2, b) \<Rightarrow>
               Inr ((1 - param m) * v1 + param m * v2, m\<lparr> osc1 := a, osc2 := b \<rparr>)))"

section \<open>Auxiliary notions\<close>

text \<open>
  The five swapping lines that both instances of \<^verbatim>\<open>bitReverse\<close> share reverse the
  32 bits of a word; the final shift and mask keep the \<open>n\<close> lowest bits of the
  reversal. \<open>reversed_index\<close> is the same permutation on indices.
\<close>

definition reverse32 :: "u32 \<Rightarrow> u32" where
  "reverse32 x0 =
      (let x1 = push_bit 16 x0 OR drop_bit 16 x0;
           x2 = push_bit 8 (x1 AND 0x00FF00FF) OR drop_bit 8 (x1 AND 0xFF00FF00);
           x3 = push_bit 4 (x2 AND 0x0F0F0F0F) OR drop_bit 4 (x2 AND 0xF0F0F0F0);
           x4 = push_bit 2 (x3 AND 0x33333333) OR drop_bit 2 (x3 AND 0xCCCCCCCC)
       in push_bit 1 (x4 AND 0x55555555) OR drop_bit 1 (x4 AND 0xAAAAAAAA))"

definition reverse_low :: "nat \<Rightarrow> u32 \<Rightarrow> u32" where
  "reverse_low n x = drop_bit (32 - n) (reverse32 x) AND drop_bit (32 - n) (- 1)"

definition reversed_index :: "nat \<Rightarrow> nat \<Rightarrow> nat" where
  "reversed_index n i = unat (reverse_low n (word_of_nat i))"

text \<open>
  The cutoff index in the words of the description of \<^verbatim>\<open>antialiase_dft\<close>:
  \<open>floor((sampleRate / 2) / maxPlaybackFrequency) + 1\<close>, the quotient being the exact
  one.
\<close>

definition spec_cutoff_index :: "real \<Rightarrow> real \<Rightarrow> nat" where
  "spec_cutoff_index samplerate max_playback_frequency =
     nat \<lfloor>(samplerate / 2) / max_playback_frequency\<rfloor> + 1"

text \<open>
  A set of three tables with the bounds 500, 2000 and 8000 Hz, whose interpolation returns
  the position itself, and an oscillator that plays the second of them at 1000 Hz and a
  sample rate of 44100 Hz.
\<close>

definition example_table :: "nat \<Rightarrow> real \<Rightarrow> wavetable" where
  "example_table n f = \<lparr> table_size = n, getMaximumPlaybackFrequency = f, interpolate = (\<lambda>x. x) \<rparr>"

definition example_tables :: "wavetable list" where
  "example_tables = [example_table 1024 500, example_table 1024 2000, example_table 1024 8000]"

definition example_oscillator :: WavetableOscillator where
  "example_oscillator =
     \<lparr> sampleRateInv = double_round (1 / 44100), frequency = 1000,
       delta = double_round (double_round (1000 * double_of_nat 1024) * double_round (1 / 44100)),
       currentSamplePosition = 0, current_value = 0, wavetables = Some example_tables,
       currentTable = Some 1, currentTableSize = 1024, topFreq = 2000, bottomFreq = 500 \<rparr>"

text \<open>
  The cached window \<open>(bottomFreq, topFreq]\<close> is either the empty one that
  \<^verbatim>\<open>setTable\<close> and the constructors leave, or the one of the selected table.
\<close>

definition cache_valid :: "WavetableOscillator \<Rightarrow> bool" where
  "cache_valid s \<longleftrightarrow>
     (topFreq s = 0 \<and> bottomFreq s = 0) \<or>
     (case (wavetables s, currentTable s) of
        (Some ts, Some i) \<Rightarrow>
          i < length ts \<and>
          topFreq s = getMaximumPlaybackFrequency (ts ! i) \<and>
          bottomFreq s = (if i = 0 then 0 else getMaximumPlaybackFrequency (ts ! (i - 1)))
      | _ \<Rightarrow> False)"

text \<open>
  An oscillator in playback: a table of the storage is selected and
  \<^verbatim>\<open>currentTableSize\<close> is its size, no table of the storage is empty or longer than
  \<open>2^29\<close> samples, the position is a \<^verbatim>\<open>double\<close> inside the selected table and the
  increment is the one \<^verbatim>\<open>updateDelta\<close> computes.
\<close>

definition playing :: "WavetableOscillator \<Rightarrow> bool" where
  "playing s \<longleftrightarrow>
     (case (wavetables s, currentTable s) of
        (Some ts, Some i) \<Rightarrow>
          i < length ts \<and> currentTableSize s = table_size (ts ! i) \<and>
          list_all (\<lambda>t. 0 < table_size t \<and> table_size t \<le> 2 ^ 29) ts
      | _ \<Rightarrow> False) \<and>
     is_double (currentSamplePosition s) \<and>
     0 \<le> currentSamplePosition s \<and>
     currentSamplePosition s < real (currentTableSize s) \<and>
     delta s =
       double_round (double_round (frequency s * double_of_nat (currentTableSize s)) * sampleRateInv s)"

text \<open>
  A frequency that the increment computed for it keeps inside every table: not negative
  and below the sample rate by the factor \<open>1 - 2^-50\<close>, for a sample rate between
  \<open>2^-900\<close> and \<open>2^900\<close> Hz whose rounded inverse the oscillator stores.
\<close>

definition below_rate :: "WavetableOscillator \<Rightarrow> real \<Rightarrow> real \<Rightarrow> bool" where
  "below_rate s sampleRate f \<longleftrightarrow>
     1 / 2 ^ 900 \<le> sampleRate \<and> sampleRate \<le> 2 ^ 900 \<and>
     sampleRateInv s = double_round (1 / sampleRate) \<and>
     0 \<le> f \<and> f \<le> sampleRate * (1 - 1 / 2 ^ 50)"

text \<open>
  The oscillator that \<^verbatim>\<open>setFrequency(-1000)\<close> leaves when called on the example
  oscillator.
\<close>

definition negative_oscillator :: WavetableOscillator where
  "negative_oscillator =
     \<lparr> sampleRateInv = double_round (1 / 44100), frequency = - 1000,
       delta = double_round (double_round (- 1000 * double_of_nat 1024) * double_round (1 / 44100)),
       currentSamplePosition = 0, current_value = 0, wavetables = Some example_tables,
       currentTable = Some 0, currentTableSize = 1024, topFreq = 500, bottomFreq = 0 \<rparr>"

text \<open>
  An oscillator at a sample rate of 32000 Hz with a single table of 1025 samples, as its
  construction at the frequency \<open>32000 - 2^-37\<close> and one step leave it; and the
  frequency \<open>32000 - 2^-38\<close>, the \<^verbatim>\<open>double\<close> next below the sample rate.
\<close>

definition edge_start_frequency :: real where
  "edge_start_frequency = 32000 - 1 / 2 ^ 37"

definition edge_frequency :: real where
  "edge_frequency = 32000 - 1 / 2 ^ 38"

definition edge_position :: real where
  "edge_position = 4507997673881599 / 2 ^ 42"

definition edge_oscillator :: WavetableOscillator where
  "edge_oscillator =
     \<lparr> sampleRateInv = double_round (1 / 32000), frequency = edge_start_frequency,
       delta = edge_position, currentSamplePosition = edge_position,
       current_value = edge_position, wavetables = Some [example_table 1025 40000],
       currentTable = Some 0, currentTableSize = 1025, topFreq = 40000, bottomFreq = 0 \<rparr>"

text \<open>
  One table of the builder, in the words of its description: the spectrum truncated for
  one frequency, then transformed back to real samples.
\<close>

definition band_limited_table :: "FFTCalculator \<Rightarrow> complex list \<Rightarrow> real \<Rightarrow> real \<Rightarrow> fault + real list" where
  "band_limited_table c spectrum samplerate freq =
     (case antialiase_dft spectrum samplerate freq of
        Inl e \<Rightarrow> Inl e
      | Inr truncated \<Rightarrow> FFTCalculator_ifft_real c truncated)"

text \<open>The calculator for \<open>N = 2\<close>.\<close>

definition example_calculator :: FFTCalculator where
  "example_calculator =
     \<lparr> size_N = 2, log_n = 1, nrm = 1 / sqrt 2, butterfly_indices = [0, 1], z = [cis pi] \<rparr>"

text \<open>
  The discrete Fourier transform that the loops are compared with. \<open>unit_root d s\<close> is
  the primitive root of unity of order \<open>2^s\<close> in direction \<open>d\<close> (1 forward, -1
  backward); the rotation \<^verbatim>\<open>wm\<close> of stage \<open>s\<close> is \<open>unit_root d (s + 1)\<close>.
  \<open>sub_dft d n x s c r\<close> is coefficient \<open>r\<close> of the transform of length \<open>2^s\<close> of
  the samples \<open>x (q * 2^(n - s) + c)\<close>.
\<close>

definition unit_root :: "real \<Rightarrow> nat \<Rightarrow> complex" where
  "unit_root d s = cis (d * (2 * pi) / 2 ^ s)"

definition sub_dft :: "real \<Rightarrow> nat \<Rightarrow> (nat \<Rightarrow> complex) \<Rightarrow> nat \<Rightarrow> nat \<Rightarrow> nat \<Rightarrow> complex" where
  "sub_dft d n x s c r = (\<Sum>q<2 ^ s. x (q * 2 ^ (n - s) + c) * unit_root d s ^ (q * r))"

text \<open>
  The state of the output buffer before stage \<open>s\<close>: blocks of length \<open>2^s\<close>, block
  \<open>b\<close> holding the normalised transform of the samples at stride \<open>2^(n - s)\<close> from
  offset \<open>reversed_index (n - s) b\<close>.
\<close>

definition stage_inv :: "real \<Rightarrow> nat \<Rightarrow> (nat \<Rightarrow> complex) \<Rightarrow> complex \<Rightarrow> nat \<Rightarrow> complex list \<Rightarrow> bool" where
  "stage_inv d n x c0 s out \<longleftrightarrow>
     length out = 2 ^ n \<and>
     (\<forall>b<2 ^ (n - s). \<forall>r<2 ^ s.
        out ! (b * 2 ^ s + r) = c0 * sub_dft d n x s (reversed_index (n - s) b) r)"

text \<open>The normalised transform of a list of length \<open>2^n\<close>.\<close>

definition dft_list :: "real \<Rightarrow> nat \<Rightarrow> complex list \<Rightarrow> complex list" where
  "dft_list d n input =
     map (\<lambda>k. complex_of_real (1 / sqrt (2 ^ n)) * sub_dft d n (\<lambda>i. input ! i) n 0 k) [0..<2 ^ n]"

section \<open>Rounding to double precision\<close>

lemma double_scale_pos [simp]: "0 < double_scale" "0 \<le> double_scale" "double_scale \<noteq> 0"
  by (simp_all add: double_scale_def)

lemma bit_length_le_iff: "bit_length n \<le> k \<longleftrightarrow> n < 2 ^ k"
proof (induction n arbitrary: k rule: bit_length.induct)
  case (1 n)
  show ?case
  proof (cases "n \<le> 0")
    case True
    have "(0::int) < 2 ^ k" by simp
    with True have "n < 2 ^ k" by linarith
    moreover have "bit_length n = 0" using True by (subst bit_length.simps) simp
    ultimately show ?thesis by simp
  next
    case False
    then have bl: "bit_length n = Suc (bit_length (n div 2))"
      by (subst bit_length.simps) simp
    show ?thesis
    proof (cases k)
      case 0
      then show ?thesis using False bl by simp
    next
      case (Suc k')
      have "bit_length n \<le> k \<longleftrightarrow> bit_length (n div 2) \<le> k'" using bl Suc by simp
      also have "\<dots> \<longleftrightarrow> n div 2 < 2 ^ k'" using "1.IH"[OF False] .
      also have "\<dots> \<longleftrightarrow> n < 2 ^ k" using Suc by auto
      finally show ?thesis .
    qed
  qed
qed

lemma ulp_exponent_le_iff: "ulp_exponent x \<le> k \<longleftrightarrow> \<bar>x\<bar> * double_scale < 2 ^ (k + 53)"
proof -
  let ?a = "\<bar>x\<bar> * double_scale"
  have "ulp_exponent x \<le> k \<longleftrightarrow> bit_length \<lfloor>?a\<rfloor> \<le> k + 53"
    by (auto simp add: ulp_exponent_def)
  also have "\<dots> \<longleftrightarrow> \<lfloor>?a\<rfloor> < 2 ^ (k + 53)" by (rule bit_length_le_iff)
  also have "\<dots> \<longleftrightarrow> ?a < 2 ^ (k + 53)"
  proof -
    have "\<lfloor>?a\<rfloor> < 2 ^ (k + 53) \<longleftrightarrow> ?a < of_int (2 ^ (k + 53))"
      by (rule floor_less_iff)
    then show ?thesis by simp
  qed
  finally show ?thesis .
qed

lemma ulp_exponent_upper: "\<bar>x\<bar> * double_scale < 2 ^ (ulp_exponent x + 53)"
  using ulp_exponent_le_iff[of x "ulp_exponent x"] by simp

lemma ulp_exponent_lower:
  assumes "0 < ulp_exponent x"
  shows "2 ^ (ulp_exponent x + 52) \<le> \<bar>x\<bar> * double_scale"
proof -
  from assms obtain k where k: "ulp_exponent x = Suc k" by (cases "ulp_exponent x") auto
  have "\<not> ulp_exponent x \<le> k" using k by simp
  then have "\<not> \<bar>x\<bar> * double_scale < 2 ^ (k + 53)" unfolding ulp_exponent_le_iff .
  then show ?thesis using k by (simp add: not_less add.commute)
qed

lemma ulp_exponent_eqI:
  assumes "\<bar>x\<bar> * double_scale < 2 ^ (k + 53)" and "k = 0 \<or> 2 ^ (k + 52) \<le> \<bar>x\<bar> * double_scale"
  shows "ulp_exponent x = k"
proof -
  have le: "ulp_exponent x \<le> k" using assms(1) by (simp only: ulp_exponent_le_iff)
  show ?thesis
  proof (cases "k = 0")
    case True
    with le show ?thesis by simp
  next
    case False
    then obtain k' where k': "k = Suc k'" by (cases k) auto
    from False assms(2) have "\<not> \<bar>x\<bar> * double_scale < 2 ^ (k' + 53)" using k' by (simp add: not_less add.commute)
    then have "\<not> ulp_exponent x \<le> k'" unfolding ulp_exponent_le_iff .
    with le k' show ?thesis by simp
  qed
qed

lemma ulp_exponent_mono:
  assumes "\<bar>x\<bar> \<le> \<bar>y\<bar>"
  shows "ulp_exponent x \<le> ulp_exponent y"
proof -
  have "\<bar>x\<bar> * double_scale \<le> \<bar>y\<bar> * double_scale" using assms by simp
  also have "\<dots> < 2 ^ (ulp_exponent y + 53)" by (rule ulp_exponent_upper)
  finally show ?thesis by (simp only: ulp_exponent_le_iff)
qed

lemma ulp_exponent_minus [simp]: "ulp_exponent (- x) = ulp_exponent x"
  by (simp add: ulp_exponent_def)

lemma round_half_even_cases:
  obtains "round_half_even x = \<lfloor>x\<rfloor>" and "x - of_int \<lfloor>x\<rfloor> \<le> 1 / 2"
  | "round_half_even x = \<lfloor>x\<rfloor> + 1" and "1 / 2 \<le> x - of_int \<lfloor>x\<rfloor>"
proof -
  consider "x - of_int \<lfloor>x\<rfloor> < 1 / 2" | "x - of_int \<lfloor>x\<rfloor> > 1 / 2"
    | "x - of_int \<lfloor>x\<rfloor> = 1 / 2" "even \<lfloor>x\<rfloor>"
    | "x - of_int \<lfloor>x\<rfloor> = 1 / 2" "odd \<lfloor>x\<rfloor>"
    by fastforce
  then show ?thesis
  proof cases
    case 1
    then have "round_half_even x = \<lfloor>x\<rfloor>" by (simp only: round_half_even_def Let_def if_True)
    with 1 that(1) show ?thesis by simp
  next
    case 2
    then have "\<not> x - of_int \<lfloor>x\<rfloor> < 1 / 2" by simp
    with 2 have "round_half_even x = \<lfloor>x\<rfloor> + 1"
      by (simp only: round_half_even_def Let_def if_True if_False)
    with 2 that(2) show ?thesis by simp
  next
    case 3
    then have "\<not> x - of_int \<lfloor>x\<rfloor> < 1 / 2" "\<not> x - of_int \<lfloor>x\<rfloor> > 1 / 2" by simp_all
    with 3 have "round_half_even x = \<lfloor>x\<rfloor>"
      by (simp only: round_half_even_def Let_def if_True if_False)
    with 3 that(1) show ?thesis by simp
  next
    case 4
    then have "\<not> x - of_int \<lfloor>x\<rfloor> < 1 / 2" "\<not> x - of_int \<lfloor>x\<rfloor> > 1 / 2" by simp_all
    with 4 have "round_half_even x = \<lfloor>x\<rfloor> + 1"
      by (simp only: round_half_even_def Let_def if_True if_False)
    with 4 that(2) show ?thesis by simp
  qed
qed

lemma round_half_even_error: "\<bar>of_int (round_half_even x) - x\<bar> \<le> 1 / 2"
proof (cases x rule: round_half_even_cases)
  case 1
  have "of_int \<lfloor>x\<rfloor> \<le> x" by simp
  with 1 show ?thesis by simp
next
  case 2
  have "x < of_int \<lfloor>x\<rfloor> + 1" by linarith
  with 2 show ?thesis by simp
qed

lemma round_half_even_of_int [simp]: "round_half_even (of_int k) = k"
  by (simp add: round_half_even_def)

lemma round_half_even_mono:
  assumes "x \<le> y"
  shows "round_half_even x \<le> round_half_even y"
proof (cases "\<lfloor>x\<rfloor> = \<lfloor>y\<rfloor>")
  case True
  then have "x - of_int \<lfloor>x\<rfloor> \<le> y - of_int \<lfloor>y\<rfloor>" using assms by simp
  then show ?thesis
    unfolding round_half_even_def Let_def True by (auto split: if_splits)
next
  case False
  have "\<lfloor>x\<rfloor> \<le> \<lfloor>y\<rfloor>" using assms by (rule floor_mono)
  with False have lt: "\<lfloor>x\<rfloor> + 1 \<le> \<lfloor>y\<rfloor>" by simp
  have "round_half_even x \<le> \<lfloor>x\<rfloor> + 1"
    by (cases x rule: round_half_even_cases) simp_all
  moreover have "\<lfloor>y\<rfloor> \<le> round_half_even y"
    by (cases y rule: round_half_even_cases) simp_all
  ultimately show ?thesis using lt by linarith
qed

lemma round_half_even_le:
  assumes "x \<le> of_int k"
  shows "round_half_even x \<le> k"
  using round_half_even_mono[OF assms] by simp

lemma round_half_even_ge:
  assumes "of_int k \<le> x"
  shows "k \<le> round_half_even x"
  using round_half_even_mono[OF assms] by simp

lemma round_half_even_minus: "round_half_even (- x) = - round_half_even x"
proof (cases "x = of_int \<lfloor>x\<rfloor>")
  case True
  define k where "k = \<lfloor>x\<rfloor>"
  have xk: "x = of_int k" using True by (simp add: k_def)
  have "round_half_even (- x) = round_half_even (of_int (- k))" by (simp add: xk)
  also have "\<dots> = - k" by (rule round_half_even_of_int)
  also have "\<dots> = - round_half_even x" by (simp add: xk)
  finally show ?thesis .
next
  case False
  have lo: "of_int \<lfloor>x\<rfloor> < x"
    using of_int_floor_le[of x] False[symmetric] by (rule order_le_neq_trans)
  have hi: "x < of_int \<lfloor>x\<rfloor> + 1" by linarith
  have fl: "\<lfloor>- x\<rfloor> = - \<lfloor>x\<rfloor> - 1"
  proof (rule floor_unique)
    show "of_int (- \<lfloor>x\<rfloor> - 1) \<le> - x" using hi by linarith
    show "- x < of_int (- \<lfloor>x\<rfloor> - 1) + 1" using lo by linarith
  qed
  show ?thesis
    unfolding round_half_even_def Let_def fl using lo hi by (auto split: if_splits)
qed

lemma double_round_eq:
  "double_round x =
     of_int (round_half_even (x * double_scale / 2 ^ ulp_exponent x)) * 2 ^ ulp_exponent x / double_scale"
  by (simp add: double_round_def Let_def double_scale_def)

lemma scaled_less:
  "\<bar>x * double_scale / 2 ^ ulp_exponent x\<bar> < 2 ^ 53"
proof -
  have "\<bar>x\<bar> * double_scale < 2 ^ ulp_exponent x * 2 ^ 53"
    using ulp_exponent_upper[of x] by (simp add: power_add)
  then have "\<bar>x\<bar> * double_scale / 2 ^ ulp_exponent x < 2 ^ 53"
    by (simp add: pos_divide_less_eq mult.commute)
  then show ?thesis by (simp add: abs_mult)
qed

lemma scaled_ge:
  assumes "0 < ulp_exponent x"
  shows "2 ^ 52 \<le> \<bar>x * double_scale / 2 ^ ulp_exponent x\<bar>"
proof -
  have "2 ^ ulp_exponent x * 2 ^ 52 \<le> \<bar>x\<bar> * double_scale"
    using ulp_exponent_lower[OF assms] by (simp add: power_add)
  then have "2 ^ 52 \<le> \<bar>x\<bar> * double_scale / 2 ^ ulp_exponent x"
    by (simp add: pos_le_divide_eq mult.commute)
  then show ?thesis by (simp add: abs_mult)
qed

lemma scaled_bounds:
  "x * double_scale / 2 ^ ulp_exponent x \<le> of_int (2 ^ 53)"
  "of_int (- (2 ^ 53)) \<le> x * double_scale / 2 ^ ulp_exponent x"
proof -
  from scaled_less[of x]
  have a: "x * double_scale / 2 ^ ulp_exponent x < 2 ^ 53 \<and> - (x * double_scale / 2 ^ ulp_exponent x) < 2 ^ 53"
    by (simp only: abs_less_iff)
  show "x * double_scale / 2 ^ ulp_exponent x \<le> of_int (2 ^ 53)" using a by simp
  show "of_int (- (2 ^ 53)) \<le> x * double_scale / 2 ^ ulp_exponent x" using a by simp
qed

lemma abs_scaled:
  assumes "x * double_scale = of_int m * 2 ^ k"
  shows "\<bar>x\<bar> * double_scale = \<bar>of_int m\<bar> * 2 ^ k"
proof -
  have "\<bar>x * double_scale\<bar> = \<bar>of_int m * 2 ^ k :: real\<bar>" using assms by simp
  then show ?thesis by (simp add: abs_mult)
qed

lemma double_round_minus: "double_round (- x) = - double_round x"
proof -
  have "round_half_even (- x * double_scale / 2 ^ ulp_exponent x)
        = - round_half_even (x * double_scale / 2 ^ ulp_exponent x)"
    using round_half_even_minus[of "x * double_scale / 2 ^ ulp_exponent x"] by simp
  then show ?thesis by (simp add: double_round_eq)
qed

lemma double_round_zero [simp]: "double_round 0 = 0"
  using round_half_even_of_int[of 0] by (simp add: double_round_eq)

lemma double_round_nonneg:
  assumes "0 \<le> x"
  shows "0 \<le> double_round x"
proof -
  have "of_int 0 \<le> x * double_scale / 2 ^ ulp_exponent x" using assms by simp
  then have "0 \<le> round_half_even (x * double_scale / 2 ^ ulp_exponent x)"
    by (rule round_half_even_ge)
  then show ?thesis by (simp add: double_round_eq)
qed

lemma double_round_nonpos:
  assumes "x \<le> 0"
  shows "double_round x \<le> 0"
  using double_round_nonneg[of "- x"] assms by (simp add: double_round_minus)

lemma double_round_mono_nonneg:
  assumes "0 \<le> x" and "x \<le> y"
  shows "double_round x \<le> double_round y"
proof -
  let ?j = "ulp_exponent x" and ?k = "ulp_exponent y"
  let ?t = "x * double_scale / 2 ^ ?j" and ?u = "y * double_scale / 2 ^ ?k"
  have jk: "?j \<le> ?k" using assms by (intro ulp_exponent_mono) simp
  have "of_int (round_half_even ?t) * 2 ^ ?j \<le> (of_int (round_half_even ?u) * 2 ^ ?k :: real)"
  proof (cases "?j = ?k")
    case True
    have "?t \<le> ?u" unfolding True using assms(2) by (simp add: divide_right_mono)
    then have "round_half_even ?t \<le> round_half_even ?u" by (rule round_half_even_mono)
    then show ?thesis unfolding True by simp
  next
    case False
    with jk have lt: "?j < ?k" by simp
    then have kpos: "0 < ?k" by simp
    have "?t \<le> of_int (2 ^ 53)" by (rule scaled_bounds)
    then have "round_half_even ?t \<le> 2 ^ 53" by (rule round_half_even_le)
    then have "(of_int (round_half_even ?t) :: real) \<le> 2 ^ 53" by (metis of_int_le_iff of_int_numeral of_int_power)
    then have "of_int (round_half_even ?t) * 2 ^ ?j \<le> (2 ^ 53 * 2 ^ ?j :: real)" by simp
    also have "\<dots> = 2 ^ 52 * 2 ^ (Suc ?j)" by simp
    also have "\<dots> \<le> 2 ^ 52 * 2 ^ ?k"
      using lt by (intro mult_left_mono power_increasing) simp_all
    also have "\<dots> \<le> of_int (round_half_even ?u) * 2 ^ ?k"
    proof -
      have "0 \<le> ?u" using assms by simp
      with scaled_ge[OF kpos] have "of_int (2 ^ 52) \<le> ?u" by simp
      then have "2 ^ 52 \<le> round_half_even ?u" by (rule round_half_even_ge)
      then have "(2 ^ 52 :: real) \<le> of_int (round_half_even ?u)"
        by (metis of_int_le_iff of_int_numeral of_int_power)
      then show ?thesis by simp
    qed
    finally show ?thesis .
  qed
  then show ?thesis by (simp add: double_round_eq divide_right_mono)
qed

lemma double_round_mono:
  assumes "x \<le> y"
  shows "double_round x \<le> double_round y"
proof (cases "0 \<le> x")
  case True
  then show ?thesis using assms by (rule double_round_mono_nonneg)
next
  case False
  show ?thesis
  proof (cases "0 \<le> y")
    case True
    have "double_round x \<le> 0" using False by (intro double_round_nonpos) simp
    also have "0 \<le> double_round y" using True by (rule double_round_nonneg)
    finally show ?thesis .
  next
    case False
    then have "0 \<le> - y" "- y \<le> - x" using assms by simp_all
    then have "double_round (- y) \<le> double_round (- x)" by (rule double_round_mono_nonneg)
    then show ?thesis by (simp add: double_round_minus)
  qed
qed

lemma double_round_fixed:
  assumes "x * double_scale = of_int m * 2 ^ k" and "\<bar>m\<bar> \<le> 2 ^ 53"
  shows "double_round x = x"
proof -
  let ?j = "ulp_exponent x"
  let ?t = "x * double_scale / 2 ^ ?j"
  have "\<exists>i. ?t = of_int i"
  proof (cases "?j \<le> k")
    case True
    then have "(2::real) ^ k = 2 ^ (k - ?j) * 2 ^ ?j"
      by (simp add: power_add[symmetric])
    then have "?t = of_int (m * 2 ^ (k - ?j))" using assms(1) by simp
    then show ?thesis ..
  next
    case False
    then have jpos: "0 < ?j" and kj: "Suc k \<le> ?j" by simp_all
    have "(2::real) ^ (k + 53) \<le> 2 ^ (?j + 52)"
      using kj by (intro power_increasing) simp_all
    also have "\<dots> \<le> \<bar>x\<bar> * double_scale" using jpos by (rule ulp_exponent_lower)
    also have "\<dots> = \<bar>of_int m\<bar> * 2 ^ k" using assms(1) by (rule abs_scaled)
    finally have "(2::real) ^ 53 \<le> \<bar>of_int m\<bar>" by (simp add: power_add)
    moreover have "\<bar>of_int m :: real\<bar> \<le> 2 ^ 53"
      using assms(2) by (metis of_int_abs of_int_le_iff of_int_numeral of_int_power)
    ultimately have m: "\<bar>of_int m :: real\<bar> = 2 ^ 53" by simp
    then have ax: "\<bar>x\<bar> * double_scale = 2 ^ (k + 53)"
      using abs_scaled[OF assms(1)] by (simp add: power_add)
    have "\<bar>x\<bar> * double_scale < 2 ^ (?j + 53)" by (rule ulp_exponent_upper)
    with ax have "(2::real) ^ (k + 53) < 2 ^ (?j + 53)" by simp
    moreover have "(2::real) ^ (?j + 52) \<le> 2 ^ (k + 53)"
      using ulp_exponent_lower[OF jpos] ax by simp
    ultimately have "k + 53 < ?j + 53" "?j + 52 \<le> k + 53" by simp_all
    then have j: "?j = Suc k" by simp
    have "\<bar>?t\<bar> = \<bar>x\<bar> * double_scale / 2 ^ ?j" by (simp add: abs_mult)
    also have "\<dots> = 2 ^ (k + 53) / 2 ^ Suc k" unfolding ax j ..
    also have "\<dots> = 2 ^ 52" by (simp add: power_add)
    finally have "\<bar>?t\<bar> = of_int (2 ^ 52)" by simp
    then have "?t = of_int (2 ^ 52) \<or> ?t = of_int (- (2 ^ 52))" by (simp add: abs_if split: if_splits)
    then show ?thesis by blast
  qed
  then obtain i where i: "?t = of_int i" ..
  have "double_round x = of_int (round_half_even ?t) * 2 ^ ?j / double_scale"
    by (rule double_round_eq)
  also have "\<dots> = ?t * 2 ^ ?j / double_scale" by (simp only: i round_half_even_of_int)
  also have "\<dots> = x" by simp
  finally show ?thesis .
qed

lemma double_round_form:
  "\<exists>m k. double_round x * double_scale = of_int m * 2 ^ k \<and> \<bar>m\<bar> \<le> 2 ^ 53 \<and> k = ulp_exponent x"
proof -
  let ?j = "ulp_exponent x"
  let ?t = "x * double_scale / 2 ^ ?j"
  have "?t \<le> of_int (2 ^ 53)" "of_int (- (2 ^ 53)) \<le> ?t" by (rule scaled_bounds)+
  then have "round_half_even ?t \<le> 2 ^ 53" "- (2 ^ 53) \<le> round_half_even ?t"
    by (simp_all only: round_half_even_le round_half_even_ge)
  then have "\<bar>round_half_even ?t\<bar> \<le> 2 ^ 53" by simp
  moreover have "double_round x * double_scale = of_int (round_half_even ?t) * 2 ^ ?j"
    by (simp add: double_round_eq)
  ultimately show ?thesis by blast
qed

lemma double_round_idem [simp]: "double_round (double_round x) = double_round x"
proof -
  from double_round_form[of x] obtain m k
    where "double_round x * double_scale = of_int m * 2 ^ k" "\<bar>m\<bar> \<le> 2 ^ 53" by blast
  then show ?thesis by (rule double_round_fixed)
qed

lemma double_round_twice:
  assumes "double_round x = x"
  shows "double_round (2 * x) = 2 * x"
proof -
  from double_round_form[of x] assms obtain m k
    where mk: "x * double_scale = of_int m * 2 ^ k" "\<bar>m\<bar> \<le> 2 ^ 53" by auto
  have "2 * x * double_scale = of_int m * 2 ^ Suc k" using mk(1) by simp
  then show ?thesis using mk(2) by (rule double_round_fixed)
qed

lemma double_round_of_nat:
  assumes "n \<le> 2 ^ 53"
  shows "double_round (real n) = real n"
proof -
  have "real n * double_scale = of_int (int n) * 2 ^ 1074" by (simp add: double_scale_def)
  moreover have "\<bar>int n\<bar> \<le> 2 ^ 53" using assms by (simp add: nat_le_iff flip: of_nat_le_iff)
  ultimately show ?thesis by (rule double_round_fixed)
qed

lemma double_round_error:
  "\<bar>double_round x - x\<bar> \<le> 2 ^ ulp_exponent x / double_scale / 2"
proof -
  let ?j = "ulp_exponent x"
  let ?t = "x * double_scale / 2 ^ ?j"
  have "double_round x - x = (of_int (round_half_even ?t) - ?t) * (2 ^ ?j / double_scale)"
    by (simp add: double_round_eq field_simps)
  then have "\<bar>double_round x - x\<bar> = \<bar>of_int (round_half_even ?t) - ?t\<bar> * (2 ^ ?j / double_scale)"
    by (simp add: abs_mult)
  also have "\<dots> \<le> 1 / 2 * (2 ^ ?j / double_scale)"
    by (intro mult_right_mono round_half_even_error) simp
  finally show ?thesis by simp
qed

lemma double_round_error_normal:
  assumes "2 ^ 52 \<le> \<bar>x\<bar> * double_scale"
  shows "\<bar>double_round x - x\<bar> \<le> \<bar>x\<bar> / 2 ^ 53"
proof -
  let ?j = "ulp_exponent x"
  have "(2::real) ^ (?j + 52) \<le> \<bar>x\<bar> * double_scale"
  proof (cases "?j = 0")
    case True
    then show ?thesis using assms by simp
  next
    case False
    then show ?thesis by (intro ulp_exponent_lower) simp
  qed
  then have "(2::real) ^ ?j \<le> \<bar>x\<bar> * double_scale / 2 ^ 52"
    by (simp add: power_add pos_le_divide_eq)
  then have "2 ^ ?j / double_scale / 2 \<le> \<bar>x\<bar> * double_scale / 2 ^ 52 / double_scale / 2"
    by (intro divide_right_mono) simp_all
  also have "\<dots> = \<bar>x\<bar> / 2 ^ 53" by simp
  finally show ?thesis using double_round_error[of x] by linarith
qed

lemma double_round_error_any:
  "\<bar>double_round x - x\<bar> \<le> \<bar>x\<bar> / 2 ^ 53 + 1 / (2 * double_scale)"
proof (cases "2 ^ 52 \<le> \<bar>x\<bar> * double_scale")
  case True
  have "0 \<le> 1 / (2 * double_scale)" by simp
  with double_round_error_normal[OF True] show ?thesis by linarith
next
  case False
  then have "\<bar>x\<bar> * double_scale < 2 ^ (0 + 53)" by simp
  then have "ulp_exponent x \<le> 0" by (simp only: ulp_exponent_le_iff)
  then have "ulp_exponent x = 0" by simp
  with double_round_error[of x] have "\<bar>double_round x - x\<bar> \<le> 1 / (2 * double_scale)" by simp
  moreover have "0 \<le> \<bar>x\<bar> / 2 ^ 53" by simp
  ultimately show ?thesis by linarith
qed

lemma double_gap:
  assumes "double_round x = x" and "double_round y = y" and "0 < x" and "x < y"
  shows "x + x / 2 ^ 53 < y"
proof -
  let ?j = "ulp_exponent x" and ?k = "ulp_exponent y"
  from double_round_form[of x] assms(1) obtain m
    where m: "x * double_scale = of_int m * 2 ^ ?j" by auto
  from double_round_form[of y] assms(2) obtain n
    where n: "y * double_scale = of_int n * 2 ^ ?k" by auto
  have jk: "?j \<le> ?k" using assms(3,4) by (intro ulp_exponent_mono) simp
  then have "(2::real) ^ ?k = 2 ^ (?k - ?j) * 2 ^ ?j" by (simp add: power_add[symmetric])
  with n have n': "y * double_scale = of_int (n * 2 ^ (?k - ?j)) * 2 ^ ?j" by simp
  have "x * double_scale < y * double_scale" using assms(4) by simp
  then have "(of_int m :: real) < of_int (n * 2 ^ (?k - ?j))" unfolding m n' by simp
  then have "m < n * 2 ^ (?k - ?j)" by (simp only: of_int_less_iff)
  then have "m + 1 \<le> n * 2 ^ (?k - ?j)" by simp
  then have "(of_int (m + 1) :: real) \<le> of_int (n * 2 ^ (?k - ?j))" by (simp only: of_int_le_iff)
  then have "of_int (m + 1) * 2 ^ ?j \<le> (of_int (n * 2 ^ (?k - ?j)) * 2 ^ ?j :: real)"
    by (intro mult_right_mono) simp_all
  then have step: "x * double_scale + 2 ^ ?j \<le> y * double_scale"
    unfolding n' using m by (simp add: algebra_simps)
  have "\<bar>x\<bar> * double_scale < 2 ^ (?j + 53)" by (rule ulp_exponent_upper)
  then have "x * double_scale / 2 ^ 53 < 2 ^ ?j"
    using assms(3) by (simp add: power_add pos_divide_less_eq)
  with step have "x * double_scale + x * double_scale / 2 ^ 53 < y * double_scale" by linarith
  then have "(x + x / 2 ^ 53) * double_scale < y * double_scale" by (simp add: algebra_simps)
  then show ?thesis by simp
qed

lemma double_round_eval:
  assumes "p \<le> 1074" and "\<bar>x\<bar> * 2 ^ p < 2 ^ 53" and "p = 1074 \<or> 2 ^ 52 \<le> \<bar>x\<bar> * 2 ^ p"
  shows "double_round x = of_int (round_half_even (x * 2 ^ p)) / 2 ^ p"
proof -
  define k where "k = 1074 - p"
  have sc: "double_scale = 2 ^ p * 2 ^ k"
    using assms(1) by (simp add: double_scale_def k_def power_add[symmetric])
  have "\<bar>x\<bar> * double_scale = \<bar>x\<bar> * 2 ^ p * 2 ^ k" by (simp add: sc)
  also have "\<dots> < 2 ^ 53 * 2 ^ k" using assms(2) by simp
  finally have up: "\<bar>x\<bar> * double_scale < 2 ^ (k + 53)" by (simp add: power_add)
  have "k = 0 \<or> 2 ^ (k + 52) \<le> \<bar>x\<bar> * double_scale"
  proof (cases "p = 1074")
    case True
    then show ?thesis by (simp add: k_def)
  next
    case False
    with assms(3) have "2 ^ 52 * 2 ^ k \<le> \<bar>x\<bar> * 2 ^ p * 2 ^ k" by simp
    then show ?thesis by (simp add: sc power_add mult.commute mult.left_commute)
  qed
  with up have j: "ulp_exponent x = k" by (rule ulp_exponent_eqI)
  show ?thesis unfolding double_round_eq j by (simp add: sc)
qed

lemma round_half_even_divide:
  assumes "0 < b"
  shows "round_half_even (of_int a / of_int b) =
           (let q = a div b; r = a mod b in
            if 2 * r < b then q else if b < 2 * r then q + 1 else if even q then q else q + 1)"
proof -
  have fl: "\<lfloor>real_of_int a / of_int b\<rfloor> = a div b" by (simp add: floor_divide_of_int_eq)
  have "real_of_int a = of_int (a div b) * of_int b + of_int (a mod b)"
    by (metis div_mult_mod_eq of_int_add of_int_mult)
  then have fr: "real_of_int a / of_int b - of_int (a div b) = of_int (a mod b) / of_int b"
    using assms by (simp add: field_simps)
  have c1: "(of_int (a mod b) / real_of_int b < 1 / 2) = (2 * (a mod b) < b)"
  proof -
    have "(of_int (a mod b) / real_of_int b < 1 / 2) = (real_of_int (2 * (a mod b)) < real_of_int b)"
      using assms by (simp add: field_simps)
    then show ?thesis by (simp only: of_int_less_iff)
  qed
  have c2: "(1 / 2 < of_int (a mod b) / real_of_int b) = (b < 2 * (a mod b))"
  proof -
    have "(1 / 2 < of_int (a mod b) / real_of_int b) = (real_of_int b < real_of_int (2 * (a mod b)))"
      using assms by (simp add: field_simps)
    then show ?thesis by (simp only: of_int_less_iff)
  qed
  show ?thesis
    unfolding round_half_even_def Let_def fl fr c1 c2 ..
qed

section \<open>The rounded frequency test, increment and position\<close>

text \<open>
  The stored inverse of a sample rate \<open>r\<close> of the normal range is within the
  relative error \<open>2^-53\<close> of \<open>1 / r\<close>. The rounded product of a frequency with it
  is at least 1 from \<open>r * (1 + 2^-53)\<close> on, hence for every \<^verbatim>\<open>double\<close> above
  \<open>r\<close>, and below 1 up to \<open>r * (1 - 2^-52)\<close>.
\<close>

lemma double_round_of_int:
  assumes "\<bar>k\<bar> \<le> 2 ^ 53"
  shows "double_round (of_int k) = of_int k"
proof -
  have "of_int k * double_scale = of_int k * 2 ^ 1074" by (simp add: double_scale_def)
  then show ?thesis using assms by (rule double_round_fixed)
qed

lemma double_round_one [simp]: "double_round 1 = 1"
  using double_round_of_int[of 1] by simp

lemma double_round_below_one: "double_round (1 - 1 / 2 ^ 53) = 1 - 1 / 2 ^ 53"
proof -
  have "(1 - 1 / 2 ^ 53) * double_scale = of_int (2 ^ 53 - 1) * 2 ^ 1021"
    by (simp add: double_scale_def)
  then show ?thesis by (rule double_round_fixed) simp
qed

lemma double_round_tie_one: "double_round (1 - 1 / 2 ^ 54) = 1"
proof -
  have "double_round (1 - 1 / 2 ^ 54) = of_int (round_half_even ((1 - 1 / 2 ^ 54) * 2 ^ 53)) / 2 ^ 53"
    by (rule double_round_eval) simp_all
  also have "(1 - 1 / 2 ^ 54) * 2 ^ 53 = real_of_int (2 ^ 54 - 1) / of_int 2" by simp
  also have "round_half_even (real_of_int (2 ^ 54 - 1) / of_int 2) = 2 ^ 53"
    by (subst round_half_even_divide) (simp_all add: Let_def)
  finally show ?thesis by simp
qed

lemma inverse_rate_bounds:
  assumes "1 / 2 ^ 1022 \<le> r" and "r \<le> 2 ^ 1022"
  shows "(1 - 1 / 2 ^ 53) / r \<le> double_round (1 / r)"
    and "double_round (1 / r) \<le> (1 + 1 / 2 ^ 53) / r"
    and "0 < double_round (1 / r)"
proof -
  have r: "0 < r" using assms(1) by (rule less_le_trans[rotated]) simp
  have "1 / 2 ^ 1022 \<le> 1 / r" using assms(2) r by (simp add: field_simps)
  then have "1 / 2 ^ 1022 \<le> \<bar>1 / r\<bar>" by linarith
  then have a: "1 / 2 ^ 1022 * double_scale \<le> \<bar>1 / r\<bar> * double_scale"
    by (intro mult_right_mono) simp_all
  have b: "1 / 2 ^ 1022 * double_scale = 2 ^ 52" by (simp add: double_scale_def)
  have "2 ^ 52 \<le> \<bar>1 / r\<bar> * double_scale" using a unfolding b .
  then have e: "\<bar>double_round (1 / r) - 1 / r\<bar> \<le> \<bar>1 / r\<bar> / 2 ^ 53"
    by (rule double_round_error_normal)
  have eq: "\<bar>1 / r\<bar> / 2 ^ 53 = 1 / 2 ^ 53 / r" using r by simp
  have "(1 - 1 / 2 ^ 53) / r = 1 / r - 1 / 2 ^ 53 / r" by (simp add: diff_divide_distrib)
  with e eq show lo: "(1 - 1 / 2 ^ 53) / r \<le> double_round (1 / r)" by linarith
  have "(1 + 1 / 2 ^ 53) / r = 1 / r + 1 / 2 ^ 53 / r" by (simp add: add_divide_distrib)
  with e eq show "double_round (1 / r) \<le> (1 + 1 / 2 ^ 53) / r" by linarith
  have "0 < (1 - 1 / 2 ^ 53) / r" using r by simp
  with lo show "0 < double_round (1 / r)" by linarith
qed

lemma assertion_fails:
  assumes "1 / 2 ^ 1022 \<le> r" and "r \<le> 2 ^ 1022" and "r * (1 + 1 / 2 ^ 53) \<le> f"
  shows "\<not> double_round (f * double_round (1 / r)) < 1"
proof -
  have r: "0 < r" using assms(1) by (rule less_le_trans[rotated]) simp
  note c = inverse_rate_bounds[OF assms(1,2)]
  have f: "0 \<le> f" using assms(3) r by (intro order_trans[OF _ assms(3)]) simp
  have "1 - 1 / 2 ^ 54 \<le> (1 + 1 / 2 ^ 53) * (1 - 1 / 2 ^ 53 :: real)" by simp
  also have "\<dots> = r * (1 + 1 / 2 ^ 53) * ((1 - 1 / 2 ^ 53) / r)" using r by simp
  also have "\<dots> \<le> f * ((1 - 1 / 2 ^ 53) / r)"
    using assms(3) r by (intro mult_right_mono) simp_all
  also have "\<dots> \<le> f * double_round (1 / r)" using c(1) f by (rule mult_left_mono)
  finally have "double_round (1 - 1 / 2 ^ 54) \<le> double_round (f * double_round (1 / r))"
    by (rule double_round_mono)
  then show ?thesis by (simp only: double_round_tie_one not_less)
qed

lemma assertion_fails_above:
  assumes "1 / 2 ^ 1022 \<le> r" and "r \<le> 2 ^ 1022"
    and "is_double r" and "is_double f" and "r < f"
  shows "\<not> double_round (f * double_round (1 / r)) < 1"
proof -
  have r: "0 < r" using assms(1) by (rule less_le_trans[rotated]) simp
  have "r + r / 2 ^ 53 < f"
    using assms(3,4) r assms(5) by (intro double_gap) (simp_all add: is_double_def)
  then have "r * (1 + 1 / 2 ^ 53) \<le> f" by (simp add: algebra_simps)
  with assms(1,2) show ?thesis by (rule assertion_fails)
qed

lemma assertion_passes:
  assumes "1 / 2 ^ 1022 \<le> r" and "r \<le> 2 ^ 1022" and "f \<le> r * (1 - 1 / 2 ^ 52)"
  shows "double_round (f * double_round (1 / r)) < 1"
proof -
  have r: "0 < r" using assms(1) by (rule less_le_trans[rotated]) simp
  note c = inverse_rate_bounds[OF assms(1,2)]
  have "f * double_round (1 / r) \<le> 1 - 1 / 2 ^ 53"
  proof (cases "0 \<le> f")
    case True
    have "f * double_round (1 / r) \<le> f * ((1 + 1 / 2 ^ 53) / r)"
      using c(2) True by (rule mult_left_mono)
    also have "\<dots> \<le> r * (1 - 1 / 2 ^ 52) * ((1 + 1 / 2 ^ 53) / r)"
      using assms(3) r by (intro mult_right_mono) simp_all
    also have "\<dots> = (1 - 1 / 2 ^ 52) * (1 + 1 / 2 ^ 53)" using r by simp
    also have "\<dots> \<le> 1 - 1 / 2 ^ 53" by simp
    finally show ?thesis .
  next
    case False
    then have "f * double_round (1 / r) \<le> 0"
      using c(3) by (simp add: mult_le_0_iff)
    also have "(0::real) \<le> 1 - 1 / 2 ^ 53" by simp
    finally show ?thesis .
  qed
  then have "double_round (f * double_round (1 / r)) \<le> double_round (1 - 1 / 2 ^ 53)"
    by (rule double_round_mono)
  also have "\<dots> < 1" unfolding double_round_below_one by simp
  finally show ?thesis .
qed

text \<open>
  The increment computed for a frequency whose exact product with the stored inverse is
  at most \<open>1 - 2^-51\<close> is below the table size; a position and an increment below the
  table size give a sum whose single wrap is below it again; and the clamp of a table
  switch ends below the table size.
\<close>

lemma double_of_nat_small:
  assumes "n \<le> 2 ^ 53"
  shows "double_of_nat n = real n"
  unfolding double_of_nat_def using assms by (rule double_round_of_nat)

lemma double_below_size:
  assumes "0 < L" and "L \<le> 2 ^ 29"
  shows "\<exists>D. double_round D = D \<and> real L - real L / 2 ^ 52 \<le> D \<and> D < real L"
proof -
  from assms(1) obtain k where k: "2 ^ k \<le> L" "L < 2 ^ (k + 1)"
    using ex_power_ivl1[of 2 L] by auto
  have "(2::nat) ^ k \<le> 2 ^ 29" using k(1) assms(2) by (rule order_trans)
  then have k29: "k \<le> 29" by (rule power_le_imp_le_exp[of "2::nat", rotated]) simp
  define D where "D = real L - 2 ^ k / 2 ^ 52"
  define m where "m = int L * 2 ^ (52 - k) - 1"
  define A :: real where "A = 2 ^ (52 - k)"
  define B :: real where "B = 2 ^ (k + 1022)"
  have AB: "0 < A" "0 < B" by (simp_all add: A_def B_def)
  have e1: "(52 - k) + (k + 1022) = 1074" and e2: "(52 - k) + k = 52" and e3: "(k + 1) + (52 - k) = 53"
    using k29 by simp_all
  have sc: "double_scale = A * B"
    unfolding double_scale_def A_def B_def power_add[symmetric] e1 ..
  have p52: "(2::real) ^ 52 = A * 2 ^ k"
    unfolding A_def power_add[symmetric] e2 ..
  have "2 ^ k / 2 ^ 52 * double_scale = B"
    unfolding sc p52 using AB by simp
  then have "D * double_scale = real L * A * B - B"
    unfolding D_def by (simp add: algebra_simps sc)
  also have "\<dots> = (real L * A - 1) * B" by (simp add: algebra_simps)
  also have "real L * A - 1 = of_int m" by (simp add: m_def A_def)
  finally have "D * double_scale = of_int m * 2 ^ (k + 1022)" by (simp only: B_def)
  moreover have "\<bar>m\<bar> \<le> 2 ^ 53"
  proof -
    have "int L < 2 ^ (k + 1)" using k(2) by (metis of_nat_less_iff of_nat_numeral of_nat_power)
    then have "int L * 2 ^ (52 - k) < 2 ^ (k + 1) * 2 ^ (52 - k)"
      by (intro mult_strict_right_mono) simp_all
    also have "\<dots> = (2::int) ^ 53" unfolding power_add[symmetric] e3 ..
    finally have "m < 2 ^ 53" by (simp add: m_def)
    moreover have "0 \<le> m" using assms(1) by (simp add: m_def)
    ultimately show ?thesis by simp
  qed
  ultimately have "double_round D = D" by (rule double_round_fixed)
  moreover have "real L - real L / 2 ^ 52 \<le> D"
  proof -
    have "(2::real) ^ k \<le> real L" using k(1) by (metis of_nat_le_iff of_nat_numeral of_nat_power)
    then have "2 ^ k / 2 ^ 52 \<le> real L / 2 ^ 52" by (rule divide_right_mono) simp
    then show ?thesis by (simp add: D_def)
  qed
  moreover have "D < real L" by (simp add: D_def)
  ultimately show ?thesis by blast
qed

lemma delta_range:
  assumes "0 < L" and "L \<le> 2 ^ 29" and "0 \<le> f" and "0 \<le> c" and "c \<le> 2 ^ 901"
    and "f * c \<le> 1 - 1 / 2 ^ 51"
  shows "0 \<le> double_round (double_round (f * double_of_nat L) * c)"
    and "double_round (double_round (f * double_of_nat L) * c) < real L"
proof -
  have "L \<le> 2 ^ 53" using assms(2) by (rule order_trans) simp
  then have dL: "double_of_nat L = real L" by (rule double_of_nat_small)
  define x where "x = f * real L"
  define y where "y = double_round x"
  define t where "t = 1 / (2 * double_scale)"
  have L1: "1 \<le> real L" using assms(1) by simp
  have x0: "0 \<le> x" using assms(3) by (simp add: x_def)
  then have y0: "0 \<le> y" unfolding y_def by (rule double_round_nonneg)
  then have "0 \<le> y * c" using assms(4) by simp
  then have "0 \<le> double_round (y * c)" by (rule double_round_nonneg)
  then show "0 \<le> double_round (double_round (f * double_of_nat L) * c)"
    by (simp add: dL x_def y_def)
  have "\<bar>y - x\<bar> \<le> \<bar>x\<bar> / 2 ^ 53 + t"
    unfolding y_def t_def by (rule double_round_error_any)
  then have "y \<le> x + x / 2 ^ 53 + t" using x0 by linarith
  then have "y * c \<le> (x + x / 2 ^ 53 + t) * c" using assms(4) by (rule mult_right_mono)
  also have "\<dots> = f * c * (real L * (1 + 1 / 2 ^ 53)) + c * t"
    by (simp add: x_def algebra_simps)
  also have "\<dots> \<le> (1 - 1 / 2 ^ 51) * (real L * (1 + 1 / 2 ^ 53)) + c * t"
    using assms(6) by (intro add_right_mono mult_right_mono) simp_all
  also have "\<dots> \<le> (1 - 1 / 2 ^ 51) * (real L * (1 + 1 / 2 ^ 53)) + 1 / 2 ^ 53"
  proof -
    have "c * t \<le> 2 ^ 901 * t" using assms(5) by (intro mult_right_mono) (simp_all add: t_def)
    also have "\<dots> \<le> 1 / 2 ^ 53" by (simp add: t_def double_scale_def)
    finally show ?thesis by simp
  qed
  also have "\<dots> \<le> (1 - 1 / 2 ^ 51) * (real L * (1 + 1 / 2 ^ 53)) + real L / 2 ^ 53"
    using L1 by (simp add: divide_right_mono)
  also have "\<dots> = real L * ((1 - 1 / 2 ^ 51) * (1 + 1 / 2 ^ 53) + 1 / 2 ^ 53)"
    by (simp add: algebra_simps)
  also have "\<dots> \<le> real L * (1 - 1 / 2 ^ 52)"
    by (intro mult_left_mono) simp_all
  also have "\<dots> = real L - real L / 2 ^ 52" by (simp add: algebra_simps)
  finally have yc: "y * c \<le> real L - real L / 2 ^ 52" .
  from double_below_size[OF assms(1,2)] obtain D
    where D: "double_round D = D" "real L - real L / 2 ^ 52 \<le> D" "D < real L" by blast
  have "y * c \<le> D" using yc D(2) by linarith
  then have "double_round (y * c) \<le> double_round D" by (rule double_round_mono)
  with D(1,3) have "double_round (y * c) < real L" by linarith
  then show "double_round (double_round (f * double_of_nat L) * c) < real L"
    by (simp add: dL x_def y_def)
qed

lemma rate_product:
  assumes "1 / 2 ^ 900 \<le> r" and "r \<le> 2 ^ 900" and "0 \<le> f" and "f \<le> r * (1 - 1 / 2 ^ 50)"
  shows "0 < double_round (1 / r)" and "double_round (1 / r) \<le> 2 ^ 901"
    and "f * double_round (1 / r) \<le> 1 - 1 / 2 ^ 51"
proof -
  have r: "0 < r" using assms(1) by (rule less_le_trans[rotated]) simp
  have lo: "1 / 2 ^ 1022 \<le> r" using assms(1) by (rule order_trans[rotated]) simp
  have hi: "r \<le> 2 ^ 1022" using assms(2) by (rule order_trans) simp
  note c = inverse_rate_bounds[OF lo hi]
  show "0 < double_round (1 / r)" by (rule c(3))
  have "1 / r \<le> 2 ^ 900" using assms(1) r by (simp add: field_simps)
  then have "(1 + 1 / 2 ^ 53) * (1 / r) \<le> (1 + 1 / 2 ^ 53) * 2 ^ 900"
    by (intro mult_left_mono) simp_all
  also have "\<dots> \<le> (2::real) ^ 901" by simp
  finally show "double_round (1 / r) \<le> 2 ^ 901" using c(2) by simp
  have "f * double_round (1 / r) \<le> f * ((1 + 1 / 2 ^ 53) / r)"
    using c(2) assms(3) by (rule mult_left_mono)
  also have "\<dots> \<le> r * (1 - 1 / 2 ^ 50) * ((1 + 1 / 2 ^ 53) / r)"
    using assms(4) r by (intro mult_right_mono) simp_all
  also have "\<dots> = (1 - 1 / 2 ^ 50) * (1 + 1 / 2 ^ 53)" using r by simp
  also have "\<dots> \<le> 1 - 1 / 2 ^ 51" by simp
  finally show "f * double_round (1 / r) \<le> 1 - 1 / 2 ^ 51" .
qed

lemma advance_range:
  assumes "0 < L" and "L \<le> 2 ^ 29"
    and "is_double pos" and "0 \<le> pos" and "pos < real L"
    and "double_round d = d" and "0 \<le> d" and "d < real L"
  defines "p \<equiv> double_round (pos + d)"
  defines "q \<equiv> (if p \<ge> double_of_nat L then double_round (p - double_of_nat L) else p)"
  shows "0 \<le> q" and "q < real L" and "is_double q"
proof -
  have "L \<le> 2 ^ 53" using assms(2) by (rule order_trans) simp
  then have dL: "double_of_nat L = real L" by (rule double_of_nat_small)
  define m where "m = max pos d"
  have m: "double_round m = m" "m < real L" "pos + d \<le> 2 * m" "0 \<le> m"
    using assms(3-8) by (auto simp add: m_def max_def is_double_def)
  have p0: "0 \<le> p" unfolding p_def using assms(4,7) by (intro double_round_nonneg) simp
  have "p \<le> double_round (2 * m)" unfolding p_def using m(3) by (rule double_round_mono)
  also have "\<dots> = 2 * m" using m(1) by (rule double_round_twice)
  finally have p2: "p \<le> 2 * m" .
  have range: "0 \<le> q \<and> q < real L"
  proof (cases "p \<ge> real L")
    case True
    then have q: "q = double_round (p - real L)" by (simp add: q_def dL)
    have "0 \<le> double_round (p - real L)" using True by (intro double_round_nonneg) simp
    moreover have "double_round (p - real L) \<le> double_round m"
      using p2 m(2) by (intro double_round_mono) simp
    ultimately show ?thesis using m(1,2) q by simp
  next
    case False
    then show ?thesis using p0 by (simp add: q_def dL)
  qed
  then show "0 \<le> q" "q < real L" by simp_all
  have "double_round q = q" by (simp add: q_def p_def)
  moreover have "\<bar>q\<bar> < 2 ^ 1024"
  proof -
    have "real L \<le> 2 ^ 29" using assms(2) by (metis of_nat_le_iff of_nat_numeral of_nat_power)
    also have "\<dots> < (2::real) ^ 1024" by simp
    finally show ?thesis using range by simp
  qed
  ultimately show "is_double q" by (simp add: is_double_def)
qed

lemma clamp_limit:
  assumes "0 < n" and "n \<le> 2 ^ 29"
  defines "limit \<equiv> double_round (double_of_nat n - double_round (1 / 10 ^ 7))"
  shows "0 \<le> limit" and "limit \<le> real n - 1 / 2 ^ 24" and "limit < real n"
    and "double_round limit = limit"
proof -
  have "n \<le> 2 ^ 53" using assms(2) by (rule order_trans) simp
  then have dn: "double_of_nat n = real n" by (rule double_of_nat_small)
  define e where "e = double_round (1 / 10 ^ 7)"
  have "double_round (1 / 2 ^ 24) = 1 / 2 ^ 24"
  proof -
    have "1 / 2 ^ 24 * double_scale = of_int 1 * 2 ^ 1050" by (simp add: double_scale_def)
    then show ?thesis by (rule double_round_fixed) simp
  qed
  moreover have "double_round (1 / 2 ^ 24) \<le> e" unfolding e_def by (rule double_round_mono) simp
  ultimately have e_lo: "1 / 2 ^ 24 \<le> e" by simp
  have "e \<le> double_round 1" unfolding e_def by (rule double_round_mono) simp
  then have e_hi: "e \<le> 1" by simp
  have n1: "1 \<le> real n" using assms(1) by simp
  have "0 \<le> double_round (real n - e)" using e_hi n1 by (intro double_round_nonneg) simp
  then show "0 \<le> limit" by (simp add: limit_def dn e_def)
  define D where "D = real n - 1 / 2 ^ 24"
  define A :: real where "A = 2 ^ 1050"
  have sc: "double_scale = 2 ^ 24 * A" by (simp add: double_scale_def A_def)
  have "D * double_scale = (real n * 2 ^ 24 - 1) * A"
    unfolding D_def sc by (simp add: algebra_simps)
  moreover have "real n * 2 ^ 24 - 1 = of_int (int n * 2 ^ 24 - 1)" by simp
  ultimately have "D * double_scale = of_int (int n * 2 ^ 24 - 1) * 2 ^ 1050"
    by (simp only: A_def)
  moreover have "\<bar>int n * 2 ^ 24 - 1\<bar> \<le> 2 ^ 53"
  proof -
    have "int n \<le> 2 ^ 29" using assms(2) by (metis of_nat_le_iff of_nat_numeral of_nat_power)
    then have "int n * 2 ^ 24 \<le> 2 ^ 29 * 2 ^ 24" by (rule mult_right_mono) simp
    moreover have "1 \<le> int n" using assms(1) by simp
    ultimately show ?thesis by simp
  qed
  ultimately have D: "double_round D = D" by (rule double_round_fixed)
  have "double_round (real n - e) \<le> double_round D"
    using e_lo by (intro double_round_mono) (simp add: D_def)
  then have "limit \<le> D" using D by (simp add: limit_def dn e_def)
  then show "limit \<le> real n - 1 / 2 ^ 24" "limit < real n" by (simp_all add: D_def)
  show "double_round limit = limit" by (simp add: limit_def)
qed

lemma clamp_range:
  assumes "0 < n" and "n \<le> 2 ^ 29" and "double_round x = x"
  defines "limit \<equiv> double_round (double_of_nat n - double_round (1 / 10 ^ 7))"
  shows "0 \<le> max 0 (min limit x)" and "max 0 (min limit x) \<le> limit"
    and "max 0 (min limit x) < real n" and "is_double (max 0 (min limit x))"
proof -
  note l = clamp_limit[OF assms(1,2), folded limit_def]
  show a: "0 \<le> max 0 (min limit x)" by simp
  show b: "max 0 (min limit x) \<le> limit" using l(1) by simp
  with l(3) show c: "max 0 (min limit x) < real n" by simp
  have "double_round (max 0 (min limit x)) = max 0 (min limit x)"
    using l(4) assms(3) by (simp add: max_def min_def)
  moreover have "\<bar>max 0 (min limit x)\<bar> < 2 ^ 1024"
  proof -
    have "real n \<le> 2 ^ 29" using assms(2) by (metis of_nat_le_iff of_nat_numeral of_nat_power)
    also have "\<dots> < (2::real) ^ 1024" by simp
    finally show ?thesis using a c by simp
  qed
  ultimately show "is_double (max 0 (min limit x))" by (simp add: is_double_def)
qed

section \<open>Bit reversal\<close>

lemma all_less_numeral: "(\<forall>k<numeral n. P k) \<longleftrightarrow> (\<forall>k<pred_numeral n. P k) \<and> P (pred_numeral n)"
  by (metis less_Suc_eq numeral_eq_Suc)

lemma all_less_32:
  "(\<forall>k<32::nat. P k) \<longleftrightarrow>
     P 0 \<and> P 1 \<and> P 2 \<and> P 3 \<and> P 4 \<and> P 5 \<and> P 6 \<and> P 7 \<and>
     P 8 \<and> P 9 \<and> P 10 \<and> P 11 \<and> P 12 \<and> P 13 \<and> P 14 \<and> P 15 \<and>
     P 16 \<and> P 17 \<and> P 18 \<and> P 19 \<and> P 20 \<and> P 21 \<and> P 22 \<and> P 23 \<and>
     P 24 \<and> P 25 \<and> P 26 \<and> P 27 \<and> P 28 \<and> P 29 \<and> P 30 \<and> P 31"
  apply (simp only: all_less_numeral pred_numeral_simps Num.BitM.simps numeral_One)
  apply (simp only: One_nat_def less_Suc0 simp_thms)
  apply (simp only: One_nat_def[symmetric])
  by blast

lemma log2OfPowerOf2_all:
  "\<forall>n<32. n \<noteq> 31 \<longrightarrow> isPowerOf2 (2 ^ n :: u32) \<and> log2OfPowerOf2 (2 ^ n :: u32) = Inr (int n)"
  unfolding all_less_32
  by (simp add: log2OfPowerOf2_def isPowerOf2_def word_sless_alt deBruijnBitPosition2_def)

lemma log2OfPowerOf2_exp:
  assumes "n \<le> 30"
  shows "isPowerOf2 (2 ^ n :: u32)" and "log2OfPowerOf2 (2 ^ n :: u32) = Inr (int n)"
  using assms log2OfPowerOf2_all by auto

lemma bit_swap:
  "bit (push_bit s (x AND lo) OR drop_bit s (x AND hi) :: u32) k \<longleftrightarrow>
     k < 32 \<and> (s \<le> k \<and> bit x (k - s) \<and> bit lo (k - s) \<or> bit x (s + k) \<and> bit hi (s + k))"
  by (auto simp add: bit_simps dest: bit_imp_le_length)

lemma bit_swap_halves:
  "bit (push_bit s x OR drop_bit s x :: u32) k \<longleftrightarrow>
     k < 32 \<and> (s \<le> k \<and> bit x (k - s) \<or> s + k < 32 \<and> bit x (s + k))"
  by (auto simp add: bit_simps dest: bit_imp_le_length)

lemma bit_reverse32_all: "\<forall>k<32. bit (reverse32 x) k = bit x (31 - k)"
  unfolding reverse32_def Let_def bit_swap bit_swap_halves all_less_32
  by (simp add: numeral_3_eq_3)

lemma bit_reverse32: "bit (reverse32 x) k \<longleftrightarrow> k < 32 \<and> bit x (31 - k)"
proof (cases "k < 32")
  case True
  then show ?thesis using bit_reverse32_all[of x] by simp
next
  case False
  then have "\<not> bit (reverse32 x) k"
    using bit_imp_le_length[of "reverse32 x" k] by auto
  with False show ?thesis by simp
qed

lemma bit_reverse_low:
  assumes "n \<le> 32"
  shows "bit (reverse_low n x) k \<longleftrightarrow> k < n \<and> bit x (n - 1 - k)"
proof -
  have "32 - n + k < 32 \<longleftrightarrow> k < n"
    using assms by linarith
  moreover have "k < n \<Longrightarrow> 31 - (32 - n + k) = n - 1 - k"
    using assms by linarith
  ultimately show ?thesis
    by (auto simp add: reverse_low_def bit_simps bit_reverse32)
qed

lemma bitReverse_eq:
  assumes "0 < nb" "nb < 32"
  shows "bitReverse x nb = Inr (reverse_low (nat nb) x)"
proof -
  have m: "(0xFFFFFFFF :: u32) = - 1" by simp
  have n: "nat (32 - nb) = 32 - nat nb" using assms by linarith
  show ?thesis
    unfolding bitReverse_def reverse32_def reverse_low_def Let_def m n
    by (simp only: assms simp_thms if_False)
qed

lemma signed_shift_masked:
  assumes "0 < nb" "nb < 32"
  shows "signed_drop_bit (nat (32 - nb)) (w :: u32) AND drop_bit (nat (32 - nb)) (- 1)
           = drop_bit (nat (32 - nb)) w AND drop_bit (nat (32 - nb)) (- 1)"
proof (rule bit_eqI)
  fix k
  have "nat (32 - nb) + k < 32 \<Longrightarrow> \<not> (32 - nat (32 - nb) \<le> k)"
    using assms by linarith
  then show "bit (signed_drop_bit (nat (32 - nb)) w AND drop_bit (nat (32 - nb)) (- 1)) k
           = bit (drop_bit (nat (32 - nb)) w AND drop_bit (nat (32 - nb)) (- 1)) k"
    by (auto simp add: bit_simps bit_signed_drop_bit_iff)
qed

lemma signed_drop_bit_nonneg:
  assumes "\<not> bit (w :: u32) 31"
  shows "signed_drop_bit n w = drop_bit n w"
proof (rule bit_eqI)
  fix k
  show "bit (signed_drop_bit n w) k = bit (drop_bit n w) k"
    using assms bit_imp_le_length[of w "n + k"]
    by (auto simp add: bit_simps bit_signed_drop_bit_iff)
qed

lemma bitReverse_int_eq:
  assumes "\<not> bit x 31"
  shows "bitReverse_int x nb = bitReverse x nb"
proof (cases "0 < nb \<and> nb < 32")
  case True
  have m: "(0xFFFFFFFF :: u32) = - 1" by simp
  from True show ?thesis
    unfolding bitReverse_int_def bitReverse_def Let_def m
    by (simp only: signed_shift_masked signed_drop_bit_nonneg[OF assms])
next
  case False
  then show ?thesis by (simp add: bitReverse_int_def bitReverse_def)
qed

lemma reverse_low_involution:
  assumes "n \<le> 32" and "take_bit n x = x"
  shows "reverse_low n (reverse_low n x) = x"
proof (rule bit_eqI)
  fix k
  have "bit (reverse_low n (reverse_low n x)) k \<longleftrightarrow> k < n \<and> bit x k"
    using assms(1) by (auto simp add: bit_reverse_low)
  also have "\<dots> \<longleftrightarrow> bit (take_bit n x) k"
    by (simp add: bit_take_bit_iff)
  finally show "bit (reverse_low n (reverse_low n x)) k = bit x k"
    using assms(2) by simp
qed

lemma take_bit_reverse_low:
  assumes "n \<le> 32"
  shows "take_bit n (reverse_low n x) = reverse_low n x"
  by (rule bit_eqI) (use assms in \<open>auto simp add: bit_take_bit_iff bit_reverse_low\<close>)

lemma unat_less_exp:
  assumes "take_bit n (w :: u32) = w"
  shows "unat w < 2 ^ n"
proof -
  have "unat (take_bit n w) = take_bit n (unat w)"
    by (simp add: unsigned_take_bit_eq)
  then show ?thesis using assms by (metis take_bit_nat_less_exp)
qed

lemma take_bit_word_of_nat:
  assumes "i < 2 ^ n"
  shows "take_bit n (word_of_nat i :: u32) = word_of_nat i"
  using assms by (simp add: take_bit_of_nat take_bit_nat_eq_self)

lemma top_bit_clear:
  assumes "take_bit n (w :: u32) = w" and "n \<le> 31"
  shows "\<not> bit w 31"
proof -
  have "bit w 31 \<longleftrightarrow> bit (take_bit n w) 31" using assms(1) by simp
  then show ?thesis using assms(2) by (simp add: bit_take_bit_iff)
qed

lemma sint_eq_uint_nonneg:
  assumes "\<not> bit (w :: u32) 31"
  shows "sint w = uint w"
proof (rule bit_eqI)
  fix k
  show "bit (sint w) k = bit (uint w) k"
    using assms bit_imp_le_length[of w k]
    by (auto simp add: bit_sint_iff bit_uint_iff)
qed

lemma traverse_map:
  assumes "\<And>x. x \<in> set xs \<Longrightarrow> f x = Inr (g x)"
  shows "traverse f xs = Inr (map g xs)"
  using assms by (induction xs) simp_all

lemma bitReverse_index:
  assumes "1 \<le> n" "n \<le> 31" "i < 2 ^ n"
  defines "r \<equiv> reverse_low n (word_of_nat i)"
  shows "bitReverse (word_of_nat i) (int n) = Inr r"
    and "bitReverse_int (word_of_nat i) (int n) = Inr r"
    and "unat r < 2 ^ n"
    and "bitReverse r (int n) = Inr (word_of_nat i)"
    and "bitReverse_int r (int n) = Inr (word_of_nat i)"
    and "sint r = int (unat r)"
proof -
  have nb: "0 < int n" "int n < 32" "n \<le> 32" using assms by simp_all
  have tx: "take_bit n (word_of_nat i :: u32) = word_of_nat i"
    using assms(3) by (rule take_bit_word_of_nat)
  have tr: "take_bit n r = r"
    unfolding r_def using nb(3) by (rule take_bit_reverse_low)
  show a: "bitReverse (word_of_nat i) (int n) = Inr r"
    using bitReverse_eq[OF nb(1,2)] by (simp add: r_def)
  show "bitReverse_int (word_of_nat i) (int n) = Inr r"
    using a bitReverse_int_eq[OF top_bit_clear[OF tx assms(2)]] by simp
  show "unat r < 2 ^ n"
    using tr by (rule unat_less_exp)
  show b: "bitReverse r (int n) = Inr (word_of_nat i)"
    using bitReverse_eq[OF nb(1,2), of r] reverse_low_involution[OF nb(3) tx]
    by (simp add: r_def)
  show "bitReverse_int r (int n) = Inr (word_of_nat i)"
    using b bitReverse_int_eq[OF top_bit_clear[OF tr assms(2)]] by simp
  show "sint r = int (unat r)"
    using sint_eq_uint_nonneg[OF top_bit_clear[OF tr assms(2)]] by simp
qed

lemma unat_word_of_nat_small:
  assumes "i < 2 ^ n" "n \<le> 31"
  shows "unat (word_of_nat i :: u32) = i"
proof -
  have "(2::nat) ^ n \<le> 2 ^ 31" using assms(2) by (intro power_increasing) simp_all
  then have "i < 2 ^ LENGTH(32)" using assms(1) by simp
  then show ?thesis by (simp add: unat_of_nat)
qed

lemma unat_exp_u32:
  assumes "n \<le> 31"
  shows "unat (2 ^ n :: u32) = 2 ^ n"
proof -
  have lt: "(2::nat) ^ n < 2 ^ LENGTH(32)" using assms by (intro power_strict_increasing) simp_all
  have "unat (word_of_nat (2 ^ n) :: u32) = 2 ^ n mod 2 ^ LENGTH(32)" by (rule unat_of_nat)
  then show ?thesis using lt by simp
qed

lemma reversed_index_less:
  assumes "1 \<le> n" "n \<le> 31" "i < 2 ^ n"
  shows "reversed_index n i < 2 ^ n"
  unfolding reversed_index_def using bitReverse_index(3)[OF assms] .

lemma reversed_index_involution:
  assumes "1 \<le> n" "n \<le> 31" "i < 2 ^ n"
  shows "reversed_index n (reversed_index n i) = i"
proof -
  have "reverse_low n (reverse_low n (word_of_nat i)) = word_of_nat i"
    using reverse_low_involution[of n "word_of_nat i"] take_bit_word_of_nat[OF assms(3)] assms(2)
    by simp
  then show ?thesis
    unfolding reversed_index_def using unat_word_of_nat_small[OF assms(3,2)] by simp
qed

lemma reversed_index_permutes:
  assumes "1 \<le> n" "n \<le> 31"
  shows "distinct (map (reversed_index n) [0..<2 ^ n])"
    and "set (map (reversed_index n) [0..<2 ^ n]) = {0..<2 ^ n}"
proof -
  have "inj_on (reversed_index n) {0..<2 ^ n}"
    by (rule inj_on_inverseI[where g = "reversed_index n"])
       (simp add: reversed_index_involution[OF assms])
  then show "distinct (map (reversed_index n) [0..<2 ^ n])"
    by (simp add: distinct_map)
  show "set (map (reversed_index n) [0..<2 ^ n]) = {0..<2 ^ n}"
  proof (intro equalityI subsetI)
    fix j assume "j \<in> set (map (reversed_index n) [0..<2 ^ n])"
    then show "j \<in> {0..<2 ^ n}"
      using reversed_index_less[OF assms] by auto
  next
    fix j :: nat assume "j \<in> {0..<2 ^ n}"
    then have j: "j < 2 ^ n" by simp
    have "reversed_index n (reversed_index n j) = j" "reversed_index n j < 2 ^ n"
      using reversed_index_involution[OF assms j] reversed_index_less[OF assms j] by simp_all
    then show "j \<in> set (map (reversed_index n) [0..<2 ^ n])"
      by (metis atLeastLessThan_iff image_eqI list.set_map set_upt zero_le)
  qed
qed

lemma FFTCalculator_new_exp:
  assumes "1 \<le> n" "n \<le> 30"
  shows "FFTCalculator_new (2 ^ n) =
           Inr \<lparr> size_N = 2 ^ n, log_n = n, nrm = 1 / sqrt (2 ^ n),
                 butterfly_indices = map (\<lambda>i. int (reversed_index n i)) [0..<2 ^ n],
                 z = map (\<lambda>s. cis (pi / 2 ^ s)) [0..<n] \<rparr>"
proof -
  have n31: "n \<le> 31" using assms(2) by simp
  have "traverse (\<lambda>i. bitReverse_int (word_of_nat i) (int n)) [0..<2 ^ n]
          = Inr (map (\<lambda>i. reverse_low n (word_of_nat i)) [0..<2 ^ n])"
    by (rule traverse_map) (simp add: bitReverse_index(2)[OF assms(1) n31])
  moreover have "map sint (map (\<lambda>i. reverse_low n (word_of_nat i)) [0..<2 ^ n])
          = map (\<lambda>i. int (reversed_index n i)) [0..<2 ^ n]"
    using bitReverse_index(6)[OF assms(1) n31] by (simp add: reversed_index_def)
  ultimately show ?thesis
    using log2OfPowerOf2_exp[OF assms(2)] unat_exp_u32[OF n31]
    by (simp add: FFTCalculator_new_def)
qed

text \<open>
  C10. For a bit count \<open>n\<close> with \<open>1 \<le> n \<le> 31\<close> and an index \<open>i < 2^n\<close>, both
  instances of \<^verbatim>\<open>bitReverse\<close> pass their assertion and return the same \<open>r < 2^n\<close>,
  and reversing \<open>r\<close> again gives \<open>i\<close> back. For \<open>N = 2^n\<close> that an \<^verbatim>\<open>int\<close>
  holds (\<open>n \<le> 30\<close>) the constructor of \<^verbatim>\<open>FFTCalculator\<close> succeeds and its table
  \<^verbatim>\<open>butterfly_indices\<close> has \<open>N\<close> distinct entries, which are the numbers
  \<open>0, \<dots>, N - 1\<close>.
\<close>

theorem bitReverse_involution:
  assumes "1 \<le> n" and "n \<le> 31"
  shows "(\<forall>i<2 ^ n. \<exists>r.
            bitReverse (word_of_nat i) (int n) = Inr r \<and> unat r < 2 ^ n \<and>
            bitReverse r (int n) = Inr (word_of_nat i) \<and>
            bitReverse_int (word_of_nat i) (int n) = Inr r \<and>
            bitReverse_int r (int n) = Inr (word_of_nat i)) \<and>
         (n \<le> 30 \<longrightarrow> (\<exists>c.
            FFTCalculator_new (2 ^ n) = Inr c \<and>
            length (butterfly_indices c) = 2 ^ n \<and>
            distinct (butterfly_indices c) \<and>
            set (butterfly_indices c) = {0..<2 ^ n}))"
proof (intro conjI allI impI)
  fix i :: nat
  assume "i < 2 ^ n"
  from bitReverse_index[OF assms this]
  show "\<exists>r. bitReverse (word_of_nat i) (int n) = Inr r \<and> unat r < 2 ^ n \<and>
            bitReverse r (int n) = Inr (word_of_nat i) \<and>
            bitReverse_int (word_of_nat i) (int n) = Inr r \<and>
            bitReverse_int r (int n) = Inr (word_of_nat i)"
    by blast
next
  assume n30: "n \<le> 30"
  let ?idx = "map (\<lambda>i. int (reversed_index n i)) [0..<2 ^ n]"
  have m: "?idx = map int (map (reversed_index n) [0..<2 ^ n])" by simp
  have "distinct ?idx"
    unfolding m using reversed_index_permutes(1)[OF assms]
    by (simp only: distinct_map inj_on_def of_nat_eq_iff) blast
  moreover have "set ?idx = {0..<2 ^ n}"
  proof -
    have "set ?idx = int ` set (map (reversed_index n) [0..<2 ^ n])"
      unfolding m by (rule set_map)
    also have "\<dots> = int ` {0..<2 ^ n}"
      by (simp only: reversed_index_permutes(2)[OF assms])
    also have "\<dots> = {0..<2 ^ n}"
      by (simp add: image_int_atLeastLessThan)
    finally show ?thesis .
  qed
  moreover have "length ?idx = 2 ^ n" by simp
  ultimately show "\<exists>c. FFTCalculator_new (2 ^ n) = Inr c \<and>
            length (butterfly_indices c) = 2 ^ n \<and>
            distinct (butterfly_indices c) \<and>
            set (butterfly_indices c) = {0..<2 ^ n}"
    using FFTCalculator_new_exp[OF assms(1) n30] by simp
qed

theorem bitReverse_involution_witness:
  "(1::nat) \<le> 3 \<and> (3::nat) \<le> 31 \<and>
   (\<exists>r. bitReverse 6 3 = Inr r \<and> unat r < 8 \<and> bitReverse r 3 = Inr 6 \<and>
        bitReverse_int 6 3 = Inr r \<and> bitReverse_int r 3 = Inr 6) \<and>
   (\<exists>c. FFTCalculator_new 8 = Inr c \<and> length (butterfly_indices c) = 8 \<and>
        distinct (butterfly_indices c) \<and> set (butterfly_indices c) = {0..<8})"
proof -
  have h: "(1::nat) \<le> 3" "(3::nat) \<le> 31" by simp_all
  note t = bitReverse_involution[OF h]
  from t[THEN conjunct1, rule_format, of 6]
  have "\<exists>r. bitReverse (word_of_nat 6) (int 3) = Inr r \<and> unat r < 2 ^ 3 \<and>
            bitReverse r (int 3) = Inr (word_of_nat 6) \<and>
            bitReverse_int (word_of_nat 6) (int 3) = Inr r \<and>
            bitReverse_int r (int 3) = Inr (word_of_nat 6)"
    by simp
  moreover from t have "\<exists>c. FFTCalculator_new (2 ^ 3) = Inr c \<and>
            length (butterfly_indices c) = 2 ^ 3 \<and>
            distinct (butterfly_indices c) \<and>
            set (butterfly_indices c) = {0..<2 ^ 3}"
    by simp
  ultimately show ?thesis by simp
qed

section \<open>Spectral truncation\<close>

lemma zero_bins_result:
  assumes "it \<le> end_it" and "end_it \<le> length spectrum"
  shows "\<exists>ys. zero_bins it end_it spectrum = Inr ys \<and> length ys = length spectrum \<and>
           (\<forall>i<length spectrum. ys ! i = (if it \<le> i \<and> i < end_it then 0 else spectrum ! i))"
  using assms
proof (induction it end_it spectrum rule: zero_bins.induct)
  case (1 it end_it spectrum)
  show ?case
  proof (cases "it = end_it")
    case True
    then show ?thesis by (subst zero_bins.simps) auto
  next
    case False
    with "1.prems" have lt: "it < end_it" "it < length spectrum" by simp_all
    have "it + 1 \<le> end_it" "end_it \<le> length (spectrum[it := 0])"
      using lt "1.prems" by simp_all
    from "1.IH"[OF False lt(2) this]
    obtain ys where ys: "zero_bins (it + 1) end_it (spectrum[it := 0]) = Inr ys"
      "length ys = length spectrum"
      "\<forall>i<length spectrum. ys ! i = (if it + 1 \<le> i \<and> i < end_it then 0 else spectrum[it := 0] ! i)"
      by auto
    have "zero_bins it end_it spectrum = Inr ys"
      using False lt ys(1) by (subst zero_bins.simps) simp
    moreover have "\<forall>i<length spectrum. ys ! i = (if it \<le> i \<and> i < end_it then 0 else spectrum ! i)"
    proof (intro allI impI)
      fix i assume i: "i < length spectrum"
      show "ys ! i = (if it \<le> i \<and> i < end_it then 0 else spectrum ! i)"
      proof (cases "i = it")
        case True
        then show ?thesis using ys(3) i lt by simp
      next
        case False
        then have "(it + 1 \<le> i) = (it \<le> i)" by auto
        then show ?thesis using ys(3) i False by simp
      qed
    qed
    ultimately show ?thesis using ys(2) by blast
  qed
qed

lemma cutoff_index_Inr:
  assumes "cutoff_index samplerate mpf = Inr cutoff"
  shows "cutoff = nat \<lfloor>double_round (double_round (samplerate * (1 / 2)) / mpf)\<rfloor> + 1"
    and "1 \<le> cutoff"
    and "0 \<le> \<lfloor>double_round (double_round (samplerate * (1 / 2)) / mpf)\<rfloor>"
  using assms by (auto simp add: cutoff_index_def Let_def split: if_splits)

lemma antialiase_dft_zeroes:
  assumes "cutoff_index samplerate mpf = Inr cutoff"
    and "cutoff \<le> length spectrum div 2"
  shows "\<exists>ys. antialiase_dft spectrum samplerate mpf = Inr ys \<and>
           length ys = length spectrum \<and>
           (\<forall>i<length spectrum. ys ! i =
              (if cutoff \<le> i \<and> i < length spectrum - cutoff + 1 then 0
               else if i = 0 then Complex (Re (spectrum ! 0)) 0
               else spectrum ! i))"
proof -
  have c1: "1 \<le> cutoff" using assms(1) by (rule cutoff_index_Inr)
  with assms(2) obtain first rest where sp: "spectrum = first # rest"
    by (cases spectrum) auto
  let ?xs = "Complex (Re first) 0 # rest"
  have "cutoff \<le> length ?xs - cutoff + 1" "length ?xs - cutoff + 1 \<le> length ?xs"
    using assms(2) c1 sp by auto
  from zero_bins_result[OF this]
  obtain ys where ys: "zero_bins cutoff (length ?xs - cutoff + 1) ?xs = Inr ys"
    "length ys = length ?xs"
    "\<forall>i<length ?xs. ys ! i = (if cutoff \<le> i \<and> i < length ?xs - cutoff + 1 then 0 else ?xs ! i)"
    by blast
  have "antialiase_dft spectrum samplerate mpf = Inr ys"
    using assms ys(1) sp by (simp add: antialiase_dft_def)
  moreover have "\<forall>i<length spectrum. ys ! i =
              (if cutoff \<le> i \<and> i < length spectrum - cutoff + 1 then 0
               else if i = 0 then Complex (Re (spectrum ! 0)) 0
               else spectrum ! i)"
    using ys(3) sp by (auto simp add: nth_Cons')
  ultimately show ?thesis using ys(2) sp by auto
qed

text \<open>
  The floor of a rounded quotient below \<open>2^53\<close> is the floor of the exact quotient or
  one more: the integers up to \<open>2^53\<close> are values of \<^verbatim>\<open>double\<close>, and rounding is
  monotone.
\<close>

lemma floor_double_round:
  assumes "0 \<le> q" and "q < 2 ^ 53"
  shows "\<lfloor>q\<rfloor> \<le> \<lfloor>double_round q\<rfloor>" and "\<lfloor>double_round q\<rfloor> \<le> \<lfloor>q\<rfloor> + 1"
proof -
  have k0: "0 \<le> \<lfloor>q\<rfloor>" using assms(1) by simp
  have "\<lfloor>q\<rfloor> < 2 ^ 53"
  proof -
    have "q < of_int (2 ^ 53)" using assms(2) by simp
    then show ?thesis by (simp only: floor_less_iff)
  qed
  with k0 have k: "\<bar>\<lfloor>q\<rfloor>\<bar> \<le> 2 ^ 53" "\<bar>\<lfloor>q\<rfloor> + 1\<bar> \<le> 2 ^ 53" by simp_all
  have "of_int \<lfloor>q\<rfloor> = double_round (of_int \<lfloor>q\<rfloor>)"
    using double_round_of_int[OF k(1)] by simp
  also have "\<dots> \<le> double_round q" by (rule double_round_mono) simp
  finally show "\<lfloor>q\<rfloor> \<le> \<lfloor>double_round q\<rfloor>" by (simp only: le_floor_iff)
  have "q \<le> of_int (\<lfloor>q\<rfloor> + 1)" by linarith
  then have "double_round q \<le> double_round (of_int (\<lfloor>q\<rfloor> + 1))" by (rule double_round_mono)
  also have "\<dots> = of_int (\<lfloor>q\<rfloor> + 1)" using k(2) by (rule double_round_of_int)
  finally have "\<lfloor>double_round q\<rfloor> \<le> \<lfloor>real_of_int (\<lfloor>q\<rfloor> + 1)\<rfloor>" by (rule floor_mono)
  then show "\<lfloor>double_round q\<rfloor> \<le> \<lfloor>q\<rfloor> + 1" by (simp only: floor_of_int)
qed

text \<open>Halving a \<^verbatim>\<open>double\<close> of the normal range is exact.\<close>

lemma double_half:
  assumes "is_double x" and "1 / 2 ^ 1021 \<le> \<bar>x\<bar>"
  shows "double_round (x * (1 / 2)) = x / 2"
proof -
  from assms(1) have fx: "double_round x = x" by (simp add: is_double_def)
  from double_round_form[of x] fx obtain m
    where m: "x * double_scale = of_int m * 2 ^ ulp_exponent x" "\<bar>m\<bar> \<le> 2 ^ 53" by auto
  have "1 / 2 ^ 1021 * double_scale \<le> \<bar>x\<bar> * double_scale"
    using assms(2) by (intro mult_right_mono) simp_all
  moreover have "1 / 2 ^ 1021 * double_scale = 2 ^ (0 + 53)" by (simp add: double_scale_def)
  ultimately have "\<not> \<bar>x\<bar> * double_scale < 2 ^ (0 + 53)" by (simp only: not_less)
  then have "\<not> ulp_exponent x \<le> 0" unfolding ulp_exponent_le_iff .
  then obtain k where k: "ulp_exponent x = Suc k" by (cases "ulp_exponent x") auto
  have "x * (1 / 2) * double_scale = of_int m * 2 ^ k" using m(1) k by simp
  then have "double_round (x * (1 / 2)) = x * (1 / 2)" using m(2) by (rule double_round_fixed)
  then show ?thesis by simp
qed

lemma cutoff_index_spec:
  assumes "cutoff_index samplerate mpf = Inr cutoff"
    and "is_double samplerate" and "1 / 2 ^ 1021 \<le> samplerate"
  shows "samplerate / 2 / mpf < 2 ^ 53 \<Longrightarrow>
           spec_cutoff_index samplerate mpf \<le> cutoff \<and> cutoff \<le> spec_cutoff_index samplerate mpf + 1"
    and "n < 2 ^ 53 \<Longrightarrow> n < spec_cutoff_index samplerate mpf \<Longrightarrow> n < cutoff"
proof -
  let ?q = "samplerate / 2 / mpf"
  have half: "double_round (samplerate * (1 / 2)) = samplerate / 2"
    using assms(2,3) by (intro double_half) simp_all
  note c = cutoff_index_Inr[OF assms(1), unfolded half]
  show "spec_cutoff_index samplerate mpf \<le> cutoff \<and> cutoff \<le> spec_cutoff_index samplerate mpf + 1"
    if lt: "?q < 2 ^ 53"
  proof (cases "0 \<le> ?q")
    case True
    have k0: "0 \<le> \<lfloor>?q\<rfloor>" using True by simp
    from floor_double_round[OF True lt] k0 show ?thesis
      unfolding spec_cutoff_index_def c(1) by linarith
  next
    case False
    then have "double_round ?q \<le> 0" by (intro double_round_nonpos) simp
    then have "\<lfloor>double_round ?q\<rfloor> \<le> 0" by (simp add: floor_le_iff)
    moreover have "\<lfloor>?q\<rfloor> \<le> 0" using False by (simp add: floor_le_iff)
    ultimately show ?thesis unfolding spec_cutoff_index_def c(1) by linarith
  qed
  show "n < cutoff" if n: "n < 2 ^ 53" "n < spec_cutoff_index samplerate mpf"
  proof (cases "n = 0")
    case True
    then show ?thesis using c(2) by simp
  next
    case False
    from n(2) have "int n \<le> \<lfloor>?q\<rfloor>" using False by (simp add: spec_cutoff_index_def)
    then have "real_of_int (int n) \<le> ?q" by (simp only: le_floor_iff)
    then have "double_round (of_int (int n)) \<le> double_round ?q" by (rule double_round_mono)
    moreover have "double_round (of_int (int n)) = of_int (int n)"
      using n(1) by (intro double_round_of_int) simp
    ultimately have "int n \<le> \<lfloor>double_round ?q\<rfloor>" by (simp only: le_floor_iff)
    then show ?thesis using c(1) by simp
  qed
qed

text \<open>
  C2, as the code has it. Let the cutoff index that \<^verbatim>\<open>antialiase_dft\<close> computes be
  defined: it is \<open>\<lfloor>q\<rfloor> + 1\<close> for the quotient \<open>q\<close> of the halved sample rate by
  \<open>max_playback_frequency\<close>, both operations rounded to \<^verbatim>\<open>double\<close>. For a sample
  rate that is a \<^verbatim>\<open>double\<close> of the normal range and an exact quotient below \<open>2^53\<close>
  it is the index \<open>floor((samplerate / 2) / max_playback_frequency) + 1\<close> of the
  description or one more. If it is at most \<open>N / 2\<close> for a spectrum of length \<open>N\<close>,
  \<^verbatim>\<open>antialiase_dft\<close> returns a spectrum of the same length in which every bin with
  index in \<open>[cutoff, N - cutoff + 1)\<close> is zero and the imaginary part of bin 0 is zero.
\<close>

theorem antialiase_dft_truncates:
  assumes "cutoff_index samplerate max_playback_frequency = Inr cutoff"
    and "cutoff \<le> length spectrum div 2"
  shows "cutoff =
           nat \<lfloor>double_round (double_round (samplerate * (1 / 2)) / max_playback_frequency)\<rfloor> + 1 \<and>
         (is_double samplerate \<and> 1 / 2 ^ 1021 \<le> samplerate \<and>
          samplerate / 2 / max_playback_frequency < 2 ^ 53 \<longrightarrow>
            spec_cutoff_index samplerate max_playback_frequency \<le> cutoff \<and>
            cutoff \<le> spec_cutoff_index samplerate max_playback_frequency + 1) \<and>
         (\<exists>ys. antialiase_dft spectrum samplerate max_playback_frequency = Inr ys \<and>
            length ys = length spectrum \<and>
            (\<forall>i. cutoff \<le> i \<and> i < length spectrum - cutoff + 1 \<longrightarrow> ys ! i = 0) \<and>
            Im (ys ! 0) = 0)"
proof -
  have c1: "1 \<le> cutoff" using assms(1) by (rule cutoff_index_Inr)
  from antialiase_dft_zeroes[OF assms]
  obtain ys where ys: "antialiase_dft spectrum samplerate max_playback_frequency = Inr ys"
    "length ys = length spectrum"
    "\<forall>i<length spectrum. ys ! i =
              (if cutoff \<le> i \<and> i < length spectrum - cutoff + 1 then 0
               else if i = 0 then Complex (Re (spectrum ! 0)) 0
               else spectrum ! i)"
    by blast
  have "\<forall>i. cutoff \<le> i \<and> i < length spectrum - cutoff + 1 \<longrightarrow> ys ! i = 0"
  proof (intro allI impI)
    fix i assume i: "cutoff \<le> i \<and> i < length spectrum - cutoff + 1"
    then have "i < length spectrum" using c1 assms(2) by linarith
    then show "ys ! i = 0" using ys(3) i by simp
  qed
  moreover have "Im (ys ! 0) = 0"
  proof -
    have "0 < length spectrum" using c1 assms(2) by (cases spectrum) auto
    then show ?thesis using ys(3) c1 by auto
  qed
  moreover have "is_double samplerate \<and> 1 / 2 ^ 1021 \<le> samplerate \<and>
          samplerate / 2 / max_playback_frequency < 2 ^ 53 \<longrightarrow>
            spec_cutoff_index samplerate max_playback_frequency \<le> cutoff \<and>
            cutoff \<le> spec_cutoff_index samplerate max_playback_frequency + 1"
    using cutoff_index_spec(1)[OF assms(1)] by blast
  ultimately show ?thesis using ys(1,2) cutoff_index_Inr(1)[OF assms(1)] by blast
qed

lemma double_round_22050: "double_round (44100 * (1 / 2)) = 22050"
proof -
  have "double_round (of_int 22050) = of_int 22050" by (rule double_round_of_int) simp
  then show ?thesis by simp
qed

lemma nyquist_index_8000: "double_round (22050 / 8000) = 6206523236469965 / 2 ^ 51"
proof -
  have "double_round (22050 / 8000) = of_int (round_half_even ((22050 / 8000) * 2 ^ 51)) / 2 ^ 51"
    by (rule double_round_eval) simp_all
  also have "(22050 / 8000) * 2 ^ 51 = real_of_int 31032616182349824 / of_int 5" by simp
  also have "round_half_even (real_of_int 31032616182349824 / of_int 5) = 6206523236469965"
    by (subst round_half_even_divide) (simp_all add: Let_def)
  finally show ?thesis by simp
qed

lemma cutoff_index_example: "cutoff_index 44100 8000 = Inr 3"
  unfolding cutoff_index_def Let_def double_round_22050 nyquist_index_8000 by simp

theorem antialiase_dft_truncates_witness:
  "cutoff_index 44100 8000 = Inr 3 \<and>
   (3::nat) \<le> length [Complex 1 1, 2, 3, 4, 5, 6, 7, Complex 8 1 :: complex] div 2 \<and>
   (\<exists>ys. antialiase_dft [Complex 1 1, 2, 3, 4, 5, 6, 7, Complex 8 1] 44100 8000 = Inr ys \<and>
      ys ! 3 = 0 \<and> ys ! 4 = 0 \<and> ys ! 5 = 0 \<and> Im (ys ! 0) = 0)"
proof -
  let ?xs = "[Complex 1 1, 2, 3, 4, 5, 6, 7, Complex 8 1 :: complex]"
  have h: "(3::nat) \<le> length ?xs div 2" by simp
  from antialiase_dft_truncates[OF cutoff_index_example h]
  obtain ys where ys: "antialiase_dft ?xs 44100 8000 = Inr ys"
    "\<forall>i. 3 \<le> i \<and> i < length ?xs - 3 + 1 \<longrightarrow> ys ! i = 0" "Im (ys ! 0) = 0"
    by blast
  from ys(2) have "ys ! 3 = 0" "ys ! 4 = 0" "ys ! 5 = 0" by simp_all
  with ys(1,3) cutoff_index_example h show ?thesis by blast
qed

text \<open>
  At a sample rate of 44100 Hz and the maximum playback frequency \<open>22050.0 / 13\<close> (the
  \<^verbatim>\<open>double\<close> nearest to the thirteenth of 22050) the exact quotient is below 13 and
  the index of the description is 13, but the rounded quotient is 13 and the code's index
  is 14. For a spectrum of 26 bins the description has bins 13 and the imaginary part of
  bin 0 zeroed; the code finds \<open>14 > 26 / 2\<close> and returns the spectrum as it was.
\<close>

lemma frequency_13: "double_round (22050 / 13) = 3729881752686277 / 2 ^ 41"
proof -
  have "double_round (22050 / 13) = of_int (round_half_even ((22050 / 13) * 2 ^ 42)) / 2 ^ 42"
    by (rule double_round_eval) simp_all
  also have "(22050 / 13) * 2 ^ 42 = real_of_int 96976925569843200 / of_int 13" by simp
  also have "round_half_even (real_of_int 96976925569843200 / of_int 13) = 7459763505372554"
    by (subst round_half_even_divide) (simp_all add: Let_def)
  finally show ?thesis by simp
qed

lemma nyquist_index_13: "double_round (22050 / (3729881752686277 / 2 ^ 41)) = 13"
proof -
  have "double_round (22050 / (3729881752686277 / 2 ^ 41)) = of_int (round_half_even ((22050 / (3729881752686277 / 2 ^ 41)) * 2 ^ 49)) / 2 ^ 49"
    by (rule double_round_eval) simp_all
  also have "(22050 / (3729881752686277 / 2 ^ 41)) * 2 ^ 49 = real_of_int 27296577866242635061525689139200 / of_int 3729881752686277" by simp
  also have "round_half_even (real_of_int 27296577866242635061525689139200 / of_int 3729881752686277) = 7318349394477056"
    by (subst round_half_even_divide) (simp_all add: Let_def)
  finally show ?thesis by simp
qed

lemma cutoff_index_13: "cutoff_index 44100 (double_round (22050 / 13)) = Inr 14"
  unfolding cutoff_index_def Let_def double_round_22050 frequency_13 nyquist_index_13 by simp

theorem rounded_cutoff_counterexample:
  "spec_cutoff_index 44100 (double_round (22050 / 13)) = 13 \<and>
   spec_cutoff_index 44100 (double_round (22050 / 13))
     \<le> length (Complex 1 1 # replicate 25 (1 :: complex)) div 2 \<and>
   cutoff_index 44100 (double_round (22050 / 13)) = Inr 14 \<and>
   antialiase_dft (Complex 1 1 # replicate 25 1) 44100 (double_round (22050 / 13))
     = Inr (Complex 1 1 # replicate 25 1) \<and>
   (Complex 1 1 # replicate 25 (1 :: complex)) ! 13 = 1 \<and>
   Im ((Complex 1 1 # replicate 25 (1 :: complex)) ! 0) = 1"
proof -
  have spec: "spec_cutoff_index 44100 (double_round (22050 / 13)) = 13"
  proof -
    have "\<lfloor>(44100 / 2 / (3729881752686277 / 2 ^ 41) :: real)\<rfloor> = 12"
      by (rule floor_unique) simp_all
    then show ?thesis unfolding spec_cutoff_index_def frequency_13 by simp
  qed
  have "antialiase_dft (Complex 1 1 # replicate 25 1) 44100 (double_round (22050 / 13))
          = Inr (Complex 1 1 # replicate 25 1)"
    unfolding antialiase_dft_def cutoff_index_13 by simp
  with spec cutoff_index_13 show ?thesis by simp
qed




lemma is_double_44100: "is_double 44100"
proof -
  have "double_round (of_int 44100) = of_int 44100" by (rule double_round_of_int) simp
  then show ?thesis by (simp add: is_double_def)
qed


section \<open>The cached frequency window\<close>

lemma selectTable_cached:
  assumes "bottomFreq s < frequency s" and "frequency s \<le> topFreq s"
  shows "selectTable s = Inr s"
  using assms by (simp add: selectTable_def)

lemma setFrequency_cached:
  assumes "bottomFreq s < f" and "f \<le> topFreq s" and "double_round (f * sampleRateInv s) < 1"
  shows "setFrequency s f =
           Inr (s\<lparr> frequency := f,
                   delta := double_round
                              (double_round (f * double_of_nat (currentTableSize s)) * sampleRateInv s) \<rparr>)"
  using assms by (simp add: setFrequency_def selectTable_def updateDelta_def)

text \<open>
  C7. If \<open>bottomFreq < f \<le> topFreq\<close> holds for the cached bounds, \<^verbatim>\<open>setFrequency(f)\<close>
  skips the selection: when \<open>f\<close> passes the assertion the call changes the frequency and
  the per-sample increment and nothing else (otherwise it aborts on the assertion). Two
  consecutive calls with such values therefore leave the selected table, the table
  storage, the cached bounds, the position and the current value as they were.
\<close>

theorem setFrequency_keeps_table:
  assumes "bottomFreq s < f1" and "f1 \<le> topFreq s"
    and "bottomFreq s < f2" and "f2 \<le> topFreq s"
  shows "setFrequency s f1 =
           (if double_round (f1 * sampleRateInv s) < 1
            then Inr (s\<lparr> frequency := f1,
                         delta := double_round
                                    (double_round (f1 * double_of_nat (currentTableSize s))
                                       * sampleRateInv s) \<rparr>)
            else Inl AssertionFailed) \<and>
         (double_round (f1 * sampleRateInv s) < 1 \<and> double_round (f2 * sampleRateInv s) < 1 \<longrightarrow>
            (\<exists>s1 s2. setFrequency s f1 = Inr s1 \<and> setFrequency s1 f2 = Inr s2 \<and>
               s2 = s\<lparr> frequency := f2,
                       delta := double_round
                                  (double_round (f2 * double_of_nat (currentTableSize s))
                                     * sampleRateInv s) \<rparr> \<and>
               currentTable s1 = currentTable s \<and> currentTable s2 = currentTable s \<and>
               wavetables s2 = wavetables s))"
proof (intro conjI impI)
  show "setFrequency s f1 =
           (if double_round (f1 * sampleRateInv s) < 1
            then Inr (s\<lparr> frequency := f1,
                         delta := double_round
                                    (double_round (f1 * double_of_nat (currentTableSize s))
                                       * sampleRateInv s) \<rparr>)
            else Inl AssertionFailed)"
    using assms(1,2) by (simp add: setFrequency_def selectTable_def updateDelta_def)
next
  assume asserted: "double_round (f1 * sampleRateInv s) < 1 \<and> double_round (f2 * sampleRateInv s) < 1"
  let ?s1 = "s\<lparr> frequency := f1,
                delta := double_round
                           (double_round (f1 * double_of_nat (currentTableSize s)) * sampleRateInv s) \<rparr>"
  have a: "setFrequency s f1 = Inr ?s1"
    using assms(1,2) asserted by (simp add: setFrequency_cached)
  have "setFrequency ?s1 f2 =
          Inr (?s1\<lparr> frequency := f2,
                    delta := double_round
                               (double_round (f2 * double_of_nat (currentTableSize ?s1))
                                  * sampleRateInv ?s1) \<rparr>)"
    by (rule setFrequency_cached) (use assms(3,4) asserted in simp_all)
  then have b: "setFrequency ?s1 f2 =
          Inr (s\<lparr> frequency := f2,
                  delta := double_round
                             (double_round (f2 * double_of_nat (currentTableSize s)) * sampleRateInv s) \<rparr>)"
    by simp
  from a b show "\<exists>s1 s2. setFrequency s f1 = Inr s1 \<and> setFrequency s1 f2 = Inr s2 \<and>
               s2 = s\<lparr> frequency := f2,
                       delta := double_round
                                  (double_round (f2 * double_of_nat (currentTableSize s))
                                     * sampleRateInv s) \<rparr> \<and>
               currentTable s1 = currentTable s \<and> currentTable s2 = currentTable s \<and>
               wavetables s2 = wavetables s"
    by simp
qed

text \<open>The example oscillator runs at 44100 Hz.\<close>

lemma example_rate:
  "1 / 2 ^ 1022 \<le> (44100::real)" "(44100::real) \<le> 2 ^ 1022"
  "1 / 2 ^ 900 \<le> (44100::real)" "(44100::real) \<le> 2 ^ 900"
  by simp_all

lemma example_assertion:
  assumes "f \<le> 44100 * (1 - 1 / 2 ^ 52)"
  shows "double_round (f * sampleRateInv example_oscillator) < 1"
proof -
  have "double_round (f * double_round (1 / 44100)) < 1"
    using example_rate(1,2) assms by (rule assertion_passes)
  then show ?thesis by (simp add: example_oscillator_def)
qed

theorem setFrequency_keeps_table_witness:
  "bottomFreq example_oscillator < 600 \<and> 600 \<le> topFreq example_oscillator \<and>
   bottomFreq example_oscillator < 1900 \<and> 1900 \<le> topFreq example_oscillator \<and>
   (\<exists>s1 s2. setFrequency example_oscillator 600 = Inr s1 \<and> setFrequency s1 1900 = Inr s2 \<and>
      currentTable s1 = Some 1 \<and> currentTable s2 = Some 1 \<and>
      wavetables s2 = Some example_tables \<and> frequency s2 = 1900)"
proof -
  have h: "bottomFreq example_oscillator < 600" "600 \<le> topFreq example_oscillator"
    "bottomFreq example_oscillator < 1900" "1900 \<le> topFreq example_oscillator"
    by (simp_all add: example_oscillator_def)
  have a: "double_round (600 * sampleRateInv example_oscillator) < 1 \<and>
           double_round (1900 * sampleRateInv example_oscillator) < 1"
    by (intro conjI example_assertion) simp_all
  from setFrequency_keeps_table[OF h, THEN conjunct2, rule_format, OF a]
  obtain s1 s2 where s: "setFrequency example_oscillator 600 = Inr s1" "setFrequency s1 1900 = Inr s2"
    "s2 = example_oscillator\<lparr> frequency := 1900,
       delta := double_round
                  (double_round (1900 * double_of_nat (currentTableSize example_oscillator))
                     * sampleRateInv example_oscillator) \<rparr>"
    "currentTable s1 = currentTable example_oscillator"
    "currentTable s2 = currentTable example_oscillator"
    "wavetables s2 = wavetables example_oscillator"
    by blast
  have "currentTable s1 = Some 1" "currentTable s2 = Some 1" "wavetables s2 = Some example_tables"
    "frequency s2 = 1900"
    using s(3-6) by (simp_all add: example_oscillator_def)
  with s(1,2) h show ?thesis by blast
qed

section \<open>The frequency assertion and the morphing oscillator\<close>

text \<open>
  C8, as the code has it. Let the oscillator store the rounded inverse of a sample rate of
  the normal range of \<^verbatim>\<open>double\<close> (between \<open>2^-1022\<close> and \<open>2^1022\<close>). The asserted
  condition of \<^verbatim>\<open>setFrequency\<close> is that the rounded product of the frequency with
  that inverse is below 1. It fails, and the call ends in the failed assertion whatever
  the rest of the state is, for every frequency from \<open>sampleRate * (1 + 2^-53)\<close> on,
  hence for every \<^verbatim>\<open>double\<close> above a sample rate that is a \<^verbatim>\<open>double\<close>. It holds,
  and the call goes on to the table selection, for every frequency up to
  \<open>sampleRate * (1 - 2^-52)\<close>.
\<close>

theorem setFrequency_asserts_below_sample_rate:
  assumes "1 / 2 ^ 1022 \<le> sampleRate" and "sampleRate \<le> 2 ^ 1022"
    and "sampleRateInv s = double_round (1 / sampleRate)"
  shows "(sampleRate * (1 + 1 / 2 ^ 53) \<le> f \<or>
          is_double sampleRate \<and> is_double f \<and> sampleRate < f \<longrightarrow>
            \<not> double_round (f * sampleRateInv s) < 1 \<and>
            setFrequency s f = Inl AssertionFailed) \<and>
         (f \<le> sampleRate * (1 - 1 / 2 ^ 52) \<longrightarrow>
            double_round (f * sampleRateInv s) < 1 \<and>
            setFrequency s f =
              (case selectTable (s\<lparr> frequency := f \<rparr>) of
                 Inl e \<Rightarrow> Inl e
               | Inr s2 \<Rightarrow> Inr (updateDelta s2)))"
proof (intro conjI impI)
  assume above: "sampleRate * (1 + 1 / 2 ^ 53) \<le> f \<or>
          is_double sampleRate \<and> is_double f \<and> sampleRate < f"
  then have "\<not> double_round (f * double_round (1 / sampleRate)) < 1"
    using assertion_fails[OF assms(1,2)] assertion_fails_above[OF assms(1,2)] by blast
  then show fails: "\<not> double_round (f * sampleRateInv s) < 1" unfolding assms(3) .
  then show "setFrequency s f = Inl AssertionFailed" by (simp add: setFrequency_def)
next
  assume "f \<le> sampleRate * (1 - 1 / 2 ^ 52)"
  with assms(1,2) have "double_round (f * double_round (1 / sampleRate)) < 1"
    by (rule assertion_passes)
  then show passes: "double_round (f * sampleRateInv s) < 1" unfolding assms(3) .
  then show "setFrequency s f =
              (case selectTable (s\<lparr> frequency := f \<rparr>) of
                 Inl e \<Rightarrow> Inl e
               | Inr s2 \<Rightarrow> Inr (updateDelta s2))"
    by (simp add: setFrequency_def)
qed

lemma is_double_of_int:
  assumes "\<bar>k\<bar> \<le> 2 ^ 53"
  shows "is_double (of_int k)"
proof -
  have "real_of_int \<bar>k\<bar> \<le> real_of_int (2 ^ 53)" using assms by (simp only: of_int_le_iff)
  also have "\<dots> < 2 ^ 1024" by simp
  finally have "\<bar>real_of_int k\<bar> < 2 ^ 1024" by simp
  with double_round_of_int[OF assms] show ?thesis by (simp add: is_double_def)
qed

theorem setFrequency_asserts_below_sample_rate_witness:
  "sampleRateInv example_oscillator = double_round (1 / 44100) \<and>
   double_round (20000 * sampleRateInv example_oscillator) < 1 \<and>
   setFrequency example_oscillator 20000 =
     (case selectTable (example_oscillator\<lparr> frequency := 20000 \<rparr>) of
        Inl e \<Rightarrow> Inl e
      | Inr s2 \<Rightarrow> Inr (updateDelta s2)) \<and>
   is_double 44100 \<and> is_double 44101 \<and>
   \<not> double_round (44101 * sampleRateInv example_oscillator) < 1 \<and>
   setFrequency example_oscillator 44101 = Inl AssertionFailed \<and>
   setFrequency example_oscillator 50000 = Inl AssertionFailed"
proof -
  have h: "sampleRateInv example_oscillator = double_round (1 / 44100)"
    by (simp add: example_oscillator_def)
  note t = setFrequency_asserts_below_sample_rate[OF example_rate(1,2) h]
  have d: "is_double 44100" "is_double 44101"
    using is_double_of_int[of 44100] is_double_of_int[of 44101] by simp_all
  have "(20000::real) \<le> 44100 * (1 - 1 / 2 ^ 52)" by simp
  with t[of 20000] have a: "double_round (20000 * sampleRateInv example_oscillator) < 1"
    "setFrequency example_oscillator 20000 =
     (case selectTable (example_oscillator\<lparr> frequency := 20000 \<rparr>) of
        Inl e \<Rightarrow> Inl e
      | Inr s2 \<Rightarrow> Inr (updateDelta s2))"
    by blast+
  have "is_double 44100 \<and> is_double 44101 \<and> (44100::real) < 44101" using d by simp
  with t[of 44101] have b: "\<not> double_round (44101 * sampleRateInv example_oscillator) < 1"
    "setFrequency example_oscillator 44101 = Inl AssertionFailed"
    by blast+
  have "(44100::real) * (1 + 1 / 2 ^ 53) \<le> 50000" by simp
  with t[of 50000] have c: "setFrequency example_oscillator 50000 = Inl AssertionFailed"
    by blast
  from h a b c d show ?thesis by blast
qed

text \<open>
  At a sample rate of 22000 Hz the stored inverse is below \<open>1 / 22000\<close> and its product
  with 22000 rounds to \<open>1 - 2^-53\<close>: a frequency equal to the sample rate passes the
  assertion, and \<^verbatim>\<open>setFrequency(22000)\<close> returns. At 7000 Hz the product of the stored
  inverse with \<open>7000 - 2^-40\<close>, the \<^verbatim>\<open>double\<close> next below 7000, rounds to 1: a
  frequency below the sample rate fails the assertion.
\<close>

lemma inverse_22000: "double_round (1 / 22000) = 3353953467947191 / 2 ^ 66"
proof -
  have "double_round (1 / 22000) = of_int (round_half_even ((1 / 22000) * 2 ^ 67)) / 2 ^ 67"
    by (rule double_round_eval) simp_all
  also have "(1 / 22000) * 2 ^ 67 = real_of_int 9223372036854775808 / of_int 1375" by simp
  also have "round_half_even (real_of_int 9223372036854775808 / of_int 1375) = 6707906935894382"
    by (subst round_half_even_divide) (simp_all add: Let_def)
  finally show ?thesis by simp
qed

lemma product_22000: "double_round (22000 * (3353953467947191 / 2 ^ 66)) = 1 - 1 / 2 ^ 53"
proof -
  have "double_round (22000 * (3353953467947191 / 2 ^ 66)) = of_int (round_half_even ((22000 * (3353953467947191 / 2 ^ 66)) * 2 ^ 53)) / 2 ^ 53"
    by (rule double_round_eval) simp_all
  also have "(22000 * (3353953467947191 / 2 ^ 66)) * 2 ^ 53 = real_of_int 4611686018427387625 / of_int 512" by simp
  also have "round_half_even (real_of_int 4611686018427387625 / of_int 512) = 9007199254740991"
    by (subst round_half_even_divide) (simp_all add: Let_def)
  finally show ?thesis by simp
qed

lemma inverse_7000: "double_round (1 / 7000) = 2635249153387079 / 2 ^ 64"
proof -
  have "double_round (1 / 7000) = of_int (round_half_even ((1 / 7000) * 2 ^ 65)) / 2 ^ 65"
    by (rule double_round_eval) simp_all
  also have "(1 / 7000) * 2 ^ 65 = real_of_int 4611686018427387904 / of_int 875" by simp
  also have "round_half_even (real_of_int 4611686018427387904 / of_int 875) = 5270498306774158"
    by (subst round_half_even_divide) (simp_all add: Let_def)
  finally show ?thesis by simp
qed

lemma product_7000: "double_round ((7000 - 1 / 2 ^ 40) * (2635249153387079 / 2 ^ 64)) = 1"
proof -
  have "double_round ((7000 - 1 / 2 ^ 40) * (2635249153387079 / 2 ^ 64)) = of_int (round_half_even (((7000 - 1 / 2 ^ 40) * (2635249153387079 / 2 ^ 64)) * 2 ^ 53)) / 2 ^ 53"
    by (rule double_round_eval) simp_all
  also have "((7000 - 1 / 2 ^ 40) * (2635249153387079 / 2 ^ 64)) * 2 ^ 53 = real_of_int 20282409603651669310422190740921 / of_int 2251799813685248" by simp
  also have "round_half_even (real_of_int 20282409603651669310422190740921 / of_int 2251799813685248) = 9007199254740992"
    by (subst round_half_even_divide) (simp_all add: Let_def)
  finally show ?thesis by simp
qed

lemma assertion_at_22000: "double_round (22000 * double_round (1 / 22000)) = 1 - 1 / 2 ^ 53"
  unfolding inverse_22000 product_22000 ..

lemma assertion_at_7000: "double_round ((7000 - 1 / 2 ^ 40) * double_round (1 / 7000)) = 1"
  unfolding inverse_7000 product_7000 ..

theorem rounded_assertion_counterexample:
  "\<not> (22000 :: real) < 22000 \<and>
   double_round (22000 * double_round (1 / 22000)) < 1 \<and>
   map_sum id frequency
     (setFrequency (example_oscillator\<lparr> sampleRateInv := double_round (1 / 22000) \<rparr>) 22000)
     = Inr 22000 \<and>
   map_sum id frequency (WavetableOscillator_new (Some example_tables) 22000 22000) = Inr 22000 \<and>
   (7000 - 1 / 2 ^ 40 :: real) < 7000 \<and>
   \<not> double_round ((7000 - 1 / 2 ^ 40) * double_round (1 / 7000)) < 1 \<and>
   setFrequency (example_oscillator\<lparr> sampleRateInv := double_round (1 / 7000) \<rparr>) (7000 - 1 / 2 ^ 40)
     = Inl AssertionFailed \<and>
   WavetableOscillator_new (Some example_tables) 7000 (7000 - 1 / 2 ^ 40) = Inl AssertionFailed"
proof -
  have a: "double_round (22000 * double_round (1 / 22000)) < 1"
    unfolding assertion_at_22000 by simp
  have b: "\<not> double_round ((7000 - 1 / 2 ^ 40) * double_round (1 / 7000)) < 1"
    unfolding assertion_at_7000 by simp
  have "map_sum id frequency
     (setFrequency (example_oscillator\<lparr> sampleRateInv := double_round (1 / 22000) \<rparr>) 22000)
     = Inr 22000"
    using a
    by (simp add: setFrequency_def selectTable_def updateDelta_def ForwardSearch_selectTable_def
        example_oscillator_def example_tables_def example_table_def Let_def)
  moreover have "map_sum id frequency (WavetableOscillator_new (Some example_tables) 22000 22000)
     = Inr 22000"
    using a
    by (simp add: WavetableOscillator_new_def WavetableOscillator_default_def setTable_def
        setFrequency_def selectTable_def updateDelta_def ForwardSearch_selectTable_def
        example_tables_def example_table_def Let_def)
  moreover have "setFrequency (example_oscillator\<lparr> sampleRateInv := double_round (1 / 7000) \<rparr>)
       (7000 - 1 / 2 ^ 40) = Inl AssertionFailed"
    using b unfolding setFrequency_def Let_def by simp
  moreover have "WavetableOscillator_new (Some example_tables) 7000 (7000 - 1 / 2 ^ 40)
       = Inl AssertionFailed"
    using b unfolding WavetableOscillator_new_def setTable_def setFrequency_def Let_def by simp
  ultimately show ?thesis using a b by simp
qed

lemma pre_increment_Inr:
  "pre_increment s = Inr (v, s') \<longleftrightarrow> advance s = Inr s' \<and> v = current_value s'"
  by (auto simp add: pre_increment_def split: sum.splits)

lemma post_increment_Inr:
  "post_increment s = Inr (v, s') \<longleftrightarrow> advance s = Inr s' \<and> v = current_value s"
  by (auto simp add: post_increment_def split: sum.splits)

text \<open>
  C9. The advance of the morphing oscillator succeeds exactly when the advances of both
  children do; it then returns \<open>(1 - p) * v1 + p * v2\<close> for the values \<open>v1\<close> and
  \<open>v2\<close> that the children's own increments return, and leaves both children advanced
  and the parameter as it was. \<^verbatim>\<open>setFrequency\<close> and \<^verbatim>\<open>setSampleRate\<close> succeed
  exactly when the same call succeeds on both children, and leave each child in the state
  of that call.
\<close>

theorem morph_blends_and_forwards:
  "(morph_pre_increment m = Inr (out, m') \<longleftrightarrow>
      (\<exists>a b. advance (osc1 m) = Inr a \<and> advance (osc2 m) = Inr b \<and>
         out = (1 - param m) * current_value a + param m * current_value b \<and>
         m' = m\<lparr> osc1 := a, osc2 := b \<rparr>)) \<and>
   (morph_post_increment m = Inr (out, m') \<longleftrightarrow>
      (\<exists>a b. advance (osc1 m) = Inr a \<and> advance (osc2 m) = Inr b \<and>
         out = (1 - param m) * current_value (osc1 m) + param m * current_value (osc2 m) \<and>
         m' = m\<lparr> osc1 := a, osc2 := b \<rparr>)) \<and>
   (morph_setFrequency m f = Inr m' \<longleftrightarrow>
      (\<exists>a b. setFrequency (osc1 m) f = Inr a \<and> setFrequency (osc2 m) f = Inr b \<and>
         m' = m\<lparr> osc1 := a, osc2 := b \<rparr>)) \<and>
   (morph_setSampleRate m r = Inr m' \<longleftrightarrow>
      (\<exists>a b. setSampleRate (osc1 m) r = Inr a \<and> setSampleRate (osc2 m) r = Inr b \<and>
         m' = m\<lparr> osc1 := a, osc2 := b \<rparr>))"
proof (intro conjI)
  show "morph_pre_increment m = Inr (out, m') \<longleftrightarrow>
      (\<exists>a b. advance (osc1 m) = Inr a \<and> advance (osc2 m) = Inr b \<and>
         out = (1 - param m) * current_value a + param m * current_value b \<and>
         m' = m\<lparr> osc1 := a, osc2 := b \<rparr>)"
    by (auto simp add: morph_pre_increment_def pre_increment_def split: sum.splits)
  show "morph_post_increment m = Inr (out, m') \<longleftrightarrow>
      (\<exists>a b. advance (osc1 m) = Inr a \<and> advance (osc2 m) = Inr b \<and>
         out = (1 - param m) * current_value (osc1 m) + param m * current_value (osc2 m) \<and>
         m' = m\<lparr> osc1 := a, osc2 := b \<rparr>)"
    by (auto simp add: morph_post_increment_def post_increment_def split: sum.splits)
  show "morph_setFrequency m f = Inr m' \<longleftrightarrow>
      (\<exists>a b. setFrequency (osc1 m) f = Inr a \<and> setFrequency (osc2 m) f = Inr b \<and>
         m' = m\<lparr> osc1 := a, osc2 := b \<rparr>)"
    by (auto simp add: morph_setFrequency_def split: sum.splits)
  show "morph_setSampleRate m r = Inr m' \<longleftrightarrow>
      (\<exists>a b. setSampleRate (osc1 m) r = Inr a \<and> setSampleRate (osc2 m) r = Inr b \<and>
         m' = m\<lparr> osc1 := a, osc2 := b \<rparr>)"
    by (auto simp add: morph_setSampleRate_def split: sum.splits)
qed

lemma example_delta:
  "0 \<le> delta example_oscillator" "delta example_oscillator < 1024"
  "double_round (delta example_oscillator) = delta example_oscillator"
proof -
  note r = rate_product[OF example_rate(3,4), of 1000]
  have c: "0 \<le> double_round (1 / 44100)" "double_round (1 / 44100) \<le> 2 ^ 901"
    "1000 * double_round (1 / 44100) \<le> 1 - 1 / 2 ^ 51"
    using r by simp_all
  have d: "delta example_oscillator =
             double_round (double_round (1000 * double_of_nat 1024) * double_round (1 / 44100))"
    by (simp add: example_oscillator_def)
  have "0 \<le> double_round (double_round (1000 * double_of_nat 1024) * double_round (1 / 44100))"
    by (rule delta_range(1)[OF _ _ _ c]) simp_all
  then show "0 \<le> delta example_oscillator" by (simp only: d)
  have "double_round (double_round (1000 * double_of_nat 1024) * double_round (1 / 44100)) < real 1024"
    by (rule delta_range(2)[OF _ _ _ c]) simp_all
  then show "delta example_oscillator < 1024" by (simp only: d of_nat_numeral)
  show "double_round (delta example_oscillator) = delta example_oscillator"
    by (simp only: d double_round_idem)
qed

lemma double_of_nat_1024: "double_of_nat 1024 = 1024"
  using double_of_nat_small[of 1024] by simp

lemma advance_example_oscillator:
  "advance example_oscillator =
     Inr (example_oscillator\<lparr> currentSamplePosition := delta example_oscillator,
                               current_value := delta example_oscillator \<rparr>)"
proof -
  have "double_round (currentSamplePosition example_oscillator + delta example_oscillator)
          = delta example_oscillator"
    using example_delta(3) by (simp add: example_oscillator_def)
  moreover have "currentTableSize example_oscillator = 1024"
    "wavetables example_oscillator = Some example_tables" "currentTable example_oscillator = Some 1"
    by (simp_all add: example_oscillator_def)
  ultimately show ?thesis
    using example_delta(2)
    by (simp add: advance_def read_current_table_def Let_def double_of_nat_1024
        example_tables_def example_table_def)
qed

lemma advance_example_oscillator_slow:
  "advance (example_oscillator\<lparr> delta := 2 \<rparr>) =
     Inr (example_oscillator\<lparr> delta := 2, currentSamplePosition := 2, current_value := 2 \<rparr>)"
proof -
  have "double_round 2 = 2" using double_round_of_int[of 2] by simp
  then show ?thesis
    by (simp add: advance_def read_current_table_def example_oscillator_def example_tables_def
        example_table_def Let_def double_of_nat_1024)
qed

theorem morph_blends_and_forwards_witness:
  "morph_pre_increment
     \<lparr> param = 1 / 4, osc1 = example_oscillator, osc2 = example_oscillator\<lparr> delta := 2 \<rparr> \<rparr>
   = Inr (3 / 4 * delta example_oscillator + 1 / 4 * 2,
          \<lparr> param = 1 / 4,
            osc1 = example_oscillator\<lparr> currentSamplePosition := delta example_oscillator,
                                      current_value := delta example_oscillator \<rparr>,
            osc2 = example_oscillator\<lparr> delta := 2, currentSamplePosition := 2,
                                      current_value := 2 \<rparr> \<rparr>)"
  using advance_example_oscillator advance_example_oscillator_slow
  by (simp add: morph_blends_and_forwards)

section \<open>Table selection\<close>

lemma ForwardSearch_loop_takeWhile:
  "ForwardSearch_loop ts f k =
     k + length (takeWhile (\<lambda>t. \<not> getMaximumPlaybackFrequency t \<ge> f) ts)"
  by (induction ts arbitrary: k) simp_all

lemma ForwardSearch_selectTable_first:
  defines "maxf \<equiv> getMaximumPlaybackFrequency"
  shows "ForwardSearch_selectTable ts f \<le> length ts"
    and "\<forall>j<ForwardSearch_selectTable ts f. maxf (ts ! j) < f"
    and "ForwardSearch_selectTable ts f < length ts \<Longrightarrow> maxf (ts ! ForwardSearch_selectTable ts f) \<ge> f"
    and "ForwardSearch_selectTable ts f = length ts \<longleftrightarrow> (\<forall>t\<in>set ts. maxf t < f)"
proof -
  let ?P = "\<lambda>t. \<not> getMaximumPlaybackFrequency t \<ge> f"
  have eq: "ForwardSearch_selectTable ts f = length (takeWhile ?P ts)"
    by (simp add: ForwardSearch_selectTable_def ForwardSearch_loop_takeWhile)
  show "ForwardSearch_selectTable ts f \<le> length ts"
    unfolding eq by (rule length_takeWhile_le)
  show "\<forall>j<ForwardSearch_selectTable ts f. maxf (ts ! j) < f"
  proof (intro allI impI)
    fix j assume j: "j < ForwardSearch_selectTable ts f"
    then have "takeWhile ?P ts ! j = ts ! j" unfolding eq by (rule takeWhile_nth)
    moreover have "takeWhile ?P ts ! j \<in> set (takeWhile ?P ts)"
      using j unfolding eq by (rule nth_mem)
    ultimately have "?P (ts ! j)" by (metis set_takeWhileD)
    then show "maxf (ts ! j) < f" by (simp add: maxf_def)
  qed
  show "ForwardSearch_selectTable ts f < length ts \<Longrightarrow> maxf (ts ! ForwardSearch_selectTable ts f) \<ge> f"
    unfolding eq maxf_def using nth_length_takeWhile[of ?P ts] by simp
  have "length (takeWhile ?P ts) = length ts \<longleftrightarrow> takeWhile ?P ts = ts"
  proof
    assume l: "length (takeWhile ?P ts) = length ts"
    have "length (takeWhile ?P ts) + length (dropWhile ?P ts) = length ts"
      by (metis length_append takeWhile_dropWhile_id)
    with l have "dropWhile ?P ts = []" by simp
    then show "takeWhile ?P ts = ts" by (metis append_Nil2 takeWhile_dropWhile_id)
  next
    assume "takeWhile ?P ts = ts"
    then show "length (takeWhile ?P ts) = length ts" by (simp only:)
  qed
  also have "\<dots> \<longleftrightarrow> (\<forall>t\<in>set ts. ?P t)"
    by (rule takeWhile_eq_all_conv)
  finally show "ForwardSearch_selectTable ts f = length ts \<longleftrightarrow> (\<forall>t\<in>set ts. maxf t < f)"
    unfolding eq maxf_def by (simp add: not_le)
qed

lemma sorted_below:
  assumes "sorted (map getMaximumPlaybackFrequency ts)" and "i < length ts" and "j < i"
  shows "getMaximumPlaybackFrequency (ts ! j) \<le> getMaximumPlaybackFrequency (ts ! (i - 1))"
proof -
  have "j \<le> i - 1" "i - 1 < length (map getMaximumPlaybackFrequency ts)"
    using assms(2,3) by simp_all
  from sorted_nth_mono[OF assms(1) this]
  show ?thesis using assms(2,3) by simp
qed

text \<open>The first-fit index: what the selection stores in \<^verbatim>\<open>currentTable\<close>.\<close>

lemma first_fit_unique:
  defines "maxf \<equiv> getMaximumPlaybackFrequency"
  assumes "i < length ts" and "maxf (ts ! i) \<ge> f" and "\<forall>j<i. maxf (ts ! j) < f"
  shows "ForwardSearch_selectTable ts f = i"
proof -
  let ?k = "ForwardSearch_selectTable ts f"
  have "\<not> ?k < i"
    using ForwardSearch_selectTable_first(3)[of ts f] assms by (fastforce simp add: not_le)
  moreover have "\<not> i < ?k"
    using ForwardSearch_selectTable_first(2)[of ts f] assms by (fastforce simp add: not_le)
  ultimately show ?thesis by simp
qed

lemma selectTable_scan:
  assumes "wavetables s = Some ts" and "ts \<noteq> []" and "\<forall>t\<in>set ts. 0 < table_size t"
    and "\<not> (frequency s \<le> topFreq s \<and> frequency s > bottomFreq s)"
    and "frequency s = f" and "sampleRateInv s = r"
  defines "k \<equiv> ForwardSearch_selectTable ts f"
  defines "i \<equiv> (if k = length ts then k - 1 else k)"
  shows "\<exists>s'. selectTable s = Inr s' \<and> currentTable s' = Some i \<and> wavetables s' = Some ts \<and>
           frequency s' = f \<and> sampleRateInv s' = r \<and>
           currentTableSize s' = table_size (ts ! i) \<and> cache_valid s'"
    and "i < length ts"
proof -
  have k: "k \<le> length ts" unfolding k_def by (rule ForwardSearch_selectTable_first)
  show i: "i < length ts" using k assms(2) by (auto simp add: i_def)
  then have "0 < table_size (ts ! i)" using assms(3) by simp
  moreover from assms(4,5)
  have c: "(f \<le> topFreq s \<and> f > bottomFreq s) = False" by simp
  ultimately show "\<exists>s'. selectTable s = Inr s' \<and> currentTable s' = Some i \<and> wavetables s' = Some ts \<and>
           frequency s' = f \<and> sampleRateInv s' = r \<and>
           currentTableSize s' = table_size (ts ! i) \<and> cache_valid s'"
    using assms(1,2) i assms(5,6)
    by (simp add: selectTable_def c Let_def k_def[symmetric] i_def[symmetric] cache_valid_def)
qed

lemma selectTable_first_fit_index:
  assumes "wavetables s = Some ts" and "ts \<noteq> []" and "\<forall>t\<in>set ts. 0 < table_size t"
    and "sorted (map getMaximumPlaybackFrequency ts)" and "cache_valid s"
  shows "\<exists>s' i. selectTable (s\<lparr> frequency := f \<rparr>) = Inr s' \<and> currentTable s' = Some i \<and>
           i < length ts \<and> wavetables s' = Some ts \<and> cache_valid s' \<and>
           frequency s' = f \<and> sampleRateInv s' = sampleRateInv s \<and>
           (if \<exists>t\<in>set ts. getMaximumPlaybackFrequency t \<ge> f
            then getMaximumPlaybackFrequency (ts ! i) \<ge> f \<and>
                 (\<forall>j<i. getMaximumPlaybackFrequency (ts ! j) < f) \<and>
                 ForwardSearch_selectTable ts f = i
            else i = length ts - 1 \<and> ForwardSearch_selectTable ts f = length ts)"
proof (cases "f \<le> topFreq s \<and> f > bottomFreq s")
  case True
  let ?s1 = "s\<lparr> frequency := f \<rparr>"
  have sel: "selectTable ?s1 = Inr ?s1"
    using True by (simp add: selectTable_def)
  from True have "\<not> (topFreq s = 0 \<and> bottomFreq s = 0)" by auto
  with assms(1,5) obtain i where i: "currentTable s = Some i" "i < length ts"
    "topFreq s = getMaximumPlaybackFrequency (ts ! i)"
    "bottomFreq s = (if i = 0 then 0 else getMaximumPlaybackFrequency (ts ! (i - 1)))"
    by (auto simp add: cache_valid_def split: option.splits)
  have top: "getMaximumPlaybackFrequency (ts ! i) \<ge> f" using True i(3) by simp
  have below: "\<forall>j<i. getMaximumPlaybackFrequency (ts ! j) < f"
  proof (intro allI impI)
    fix j assume j: "j < i"
    then have "bottomFreq s = getMaximumPlaybackFrequency (ts ! (i - 1))" using i(4) by simp
    moreover have "getMaximumPlaybackFrequency (ts ! j) \<le> getMaximumPlaybackFrequency (ts ! (i - 1))"
      using assms(4) i(2) j by (rule sorted_below)
    ultimately show "getMaximumPlaybackFrequency (ts ! j) < f" using True by simp
  qed
  have "ForwardSearch_selectTable ts f = i"
    using i(2) top below by (rule first_fit_unique)
  moreover have "\<exists>t\<in>set ts. getMaximumPlaybackFrequency t \<ge> f"
    using top i(2) nth_mem by blast
  moreover have "cache_valid ?s1"
    using assms(5) by (auto simp add: cache_valid_def split: option.splits)
  ultimately show ?thesis
    using sel i(1,2) assms(1) top below by simp
next
  case False
  let ?s1 = "s\<lparr> frequency := f \<rparr>"
  let ?k = "ForwardSearch_selectTable ts f"
  let ?i = "if ?k = length ts then ?k - 1 else ?k"
  have pre: "wavetables ?s1 = Some ts"
    "\<not> (frequency ?s1 \<le> topFreq ?s1 \<and> frequency ?s1 > bottomFreq ?s1)"
    "frequency ?s1 = f" "sampleRateInv ?s1 = sampleRateInv s"
    using assms(1) False by simp_all
  note scan = selectTable_scan[OF pre(1) assms(2,3) pre(2,3,4)]
  from scan(1) obtain s' where s': "selectTable ?s1 = Inr s'" "currentTable s' = Some ?i"
    "wavetables s' = Some ts" "frequency s' = f" "sampleRateInv s' = sampleRateInv s"
    "cache_valid s'"
    by blast
  note i = scan(2)
  have fit: "if \<exists>t\<in>set ts. getMaximumPlaybackFrequency t \<ge> f
            then getMaximumPlaybackFrequency (ts ! ?i) \<ge> f \<and>
                 (\<forall>j<?i. getMaximumPlaybackFrequency (ts ! j) < f) \<and> ?k = ?i
            else ?i = length ts - 1 \<and> ?k = length ts"
  proof (cases "\<exists>t\<in>set ts. getMaximumPlaybackFrequency t \<ge> f")
    case True
    then have "?k \<noteq> length ts"
      using ForwardSearch_selectTable_first(4)[of ts f] by (auto simp add: not_less)
    moreover from this have "?k < length ts"
      using ForwardSearch_selectTable_first(1)[of ts f] by simp
    ultimately show ?thesis
      using True ForwardSearch_selectTable_first(2,3)[of ts f] by simp
  next
    case False
    then have "?k = length ts"
      using ForwardSearch_selectTable_first(4)[of ts f] by (auto simp add: not_le)
    then show ?thesis using False by simp
  qed
  show ?thesis
    using s' i fit by blast
qed

text \<open>
  C3, as the code has it. For a non-empty set of tables of positive size, sorted by their
  bounds, and an oscillator whose cached window is the empty one or that of its selected
  table, the selection for any frequency \<open>f\<close> succeeds and selects the first table
  whose \<^verbatim>\<open>maximumPlaybackFrequency\<close> is at least \<open>f\<close>, which is what the forward scan
  returns; if no table qualifies the scan returns the end and the last table is selected.
  \<^verbatim>\<open>setFrequency(f)\<close> selects the same table whenever \<open>f\<close> passes its assertion. For
  the bounds 500, 2000 and 8000 the selected index is 0 at 400, 2 at 3000 (the bound 2000
  is below 3000) and 2 at 20000.
\<close>

theorem selectTable_first_fit:
  assumes "wavetables s = Some ts" and "ts \<noteq> []" and "\<forall>t\<in>set ts. 0 < table_size t"
    and "sorted (map getMaximumPlaybackFrequency ts)" and "cache_valid s"
  shows "\<exists>s' i. selectTable (s\<lparr> frequency := f \<rparr>) = Inr s' \<and> currentTable s' = Some i \<and>
           i < length ts \<and> wavetables s' = Some ts \<and> cache_valid s' \<and>
           (if \<exists>t\<in>set ts. getMaximumPlaybackFrequency t \<ge> f
            then getMaximumPlaybackFrequency (ts ! i) \<ge> f \<and>
                 (\<forall>j<i. getMaximumPlaybackFrequency (ts ! j) < f) \<and>
                 ForwardSearch_selectTable ts f = i
            else i = length ts - 1 \<and> ForwardSearch_selectTable ts f = length ts) \<and>
           (double_round (f * sampleRateInv s) < 1 \<longrightarrow>
              (\<exists>s''. setFrequency s f = Inr s'' \<and> currentTable s'' = Some i \<and>
                 wavetables s'' = Some ts \<and> cache_valid s'')) \<and>
           (map getMaximumPlaybackFrequency ts = [500, 2000, 8000] \<longrightarrow>
              (f = 400 \<longrightarrow> i = 0) \<and> (f = 3000 \<longrightarrow> i = 2) \<and> (f = 20000 \<longrightarrow> i = 2))"
proof -
  from selectTable_first_fit_index[OF assms, of f]
  obtain s' i where s': "selectTable (s\<lparr> frequency := f \<rparr>) = Inr s'" "currentTable s' = Some i"
    "i < length ts" "wavetables s' = Some ts" "cache_valid s'"
    "frequency s' = f" "sampleRateInv s' = sampleRateInv s"
    and fit: "if \<exists>t\<in>set ts. getMaximumPlaybackFrequency t \<ge> f
            then getMaximumPlaybackFrequency (ts ! i) \<ge> f \<and>
                 (\<forall>j<i. getMaximumPlaybackFrequency (ts ! j) < f) \<and>
                 ForwardSearch_selectTable ts f = i
            else i = length ts - 1 \<and> ForwardSearch_selectTable ts f = length ts"
    by blast
  have setf: "double_round (f * sampleRateInv s) < 1 \<longrightarrow>
              (\<exists>s''. setFrequency s f = Inr s'' \<and> currentTable s'' = Some i \<and>
                 wavetables s'' = Some ts \<and> cache_valid s'')"
    using s' by (auto simp add: setFrequency_def updateDelta_def cache_valid_def)
  have scenario: "(f = 400 \<longrightarrow> i = 0) \<and> (f = 3000 \<longrightarrow> i = 2) \<and> (f = 20000 \<longrightarrow> i = 2)"
    if m: "map getMaximumPlaybackFrequency ts = [500, 2000, 8000]"
  proof -
    have len: "length ts = 3" using m by (metis length_map length_Cons list.size(3) numeral_3_eq_3)
    have nth: "\<And>j. j < 3 \<Longrightarrow> getMaximumPlaybackFrequency (ts ! j) = [500, 2000, 8000] ! j"
      using m len by (metis nth_map)
    have v: "getMaximumPlaybackFrequency (ts ! 0) = 500"
      "getMaximumPlaybackFrequency (ts ! 1) = 2000"
      "getMaximumPlaybackFrequency (ts ! 2) = 8000"
      using nth[of 0] nth[of 1] nth[of 2] by simp_all
    have set: "getMaximumPlaybackFrequency ` set ts = {500, 2000, 8000}"
      using m by (metis list.set_map list.simps(15) empty_set)
    have i3: "i = 0 \<or> i = 1 \<or> i = 2" using s'(3) len by linarith
    have mem: "ts ! 2 \<in> set ts" using len by simp
    have a: "i = 0" if "f = 400"
    proof -
      have "\<exists>t\<in>set ts. getMaximumPlaybackFrequency t \<ge> f"
        using mem v(3) that by (intro bexI[of _ "ts ! 2"]) simp_all
      with fit have "\<forall>j<i. getMaximumPlaybackFrequency (ts ! j) < f" by simp
      then show ?thesis using v(1) that by (cases "i = 0") auto
    qed
    have b: "i = 2" if "f = 3000"
    proof -
      have "\<exists>t\<in>set ts. getMaximumPlaybackFrequency t \<ge> f"
        using mem v(3) that by (intro bexI[of _ "ts ! 2"]) simp_all
      with fit have "getMaximumPlaybackFrequency (ts ! i) \<ge> f" by simp
      then show ?thesis using v i3 that by auto
    qed
    have c: "i = 2" if "f = 20000"
    proof -
      have "\<not> (\<exists>t\<in>set ts. getMaximumPlaybackFrequency t \<ge> f)"
      proof
        assume "\<exists>t\<in>set ts. getMaximumPlaybackFrequency t \<ge> f"
        then obtain t where "t \<in> set ts" "getMaximumPlaybackFrequency t \<ge> f" by blast
        moreover from this have "getMaximumPlaybackFrequency t \<in> {500, 2000, 8000}"
          using set by blast
        ultimately show False using that by auto
      qed
      with fit have "i = length ts - 1" by simp
      then show ?thesis using len by simp
    qed
    from a b c show ?thesis by blast
  qed
  from s'(1-5) fit setf scenario show ?thesis by blast
qed

lemma example_tables_facts:
  "example_tables \<noteq> []"
  "\<forall>t\<in>set example_tables. 0 < table_size t"
  "sorted (map getMaximumPlaybackFrequency example_tables)"
  "map getMaximumPlaybackFrequency example_tables = [500, 2000, 8000]"
  by (simp_all add: example_tables_def example_table_def)

lemma example_oscillator_facts:
  "wavetables example_oscillator = Some example_tables"
  "cache_valid example_oscillator"
  "sampleRateInv example_oscillator = double_round (1 / 44100)"
  by (simp_all add: example_oscillator_def cache_valid_def example_tables_def example_table_def)

theorem selectTable_first_fit_witness:
  "(\<exists>s'. setFrequency example_oscillator 400 = Inr s' \<and> currentTable s' = Some 0) \<and>
   (\<exists>s'. setFrequency example_oscillator 3000 = Inr s' \<and> currentTable s' = Some 2) \<and>
   (\<exists>s'. setFrequency example_oscillator 20000 = Inr s' \<and> currentTable s' = Some 2)"
proof -
  note t = selectTable_first_fit[OF example_oscillator_facts(1) example_tables_facts(1,2,3)
      example_oscillator_facts(2)]
  have a: "double_round (400 * sampleRateInv example_oscillator) < 1"
    "double_round (3000 * sampleRateInv example_oscillator) < 1"
    "double_round (20000 * sampleRateInv example_oscillator) < 1"
    by (rule example_assertion, simp)+
  from t[of 400] a(1) example_tables_facts(4)
  have "\<exists>s'. setFrequency example_oscillator 400 = Inr s' \<and> currentTable s' = Some 0"
    by auto
  moreover from t[of 3000] a(2) example_tables_facts(4)
  have "\<exists>s'. setFrequency example_oscillator 3000 = Inr s' \<and> currentTable s' = Some 2"
    by auto
  moreover from t[of 20000] a(3) example_tables_facts(4)
  have "\<exists>s'. setFrequency example_oscillator 20000 = Inr s' \<and> currentTable s' = Some 2"
    by auto
  ultimately show ?thesis by blast
qed

text \<open>
  At 3000 Hz the oscillator does not select the table of index 1, whose bound is 2000:
  the constructor, and \<^verbatim>\<open>setFrequency\<close> on a playing oscillator, select index 2.
\<close>

lemma assertion_at_44100:
  assumes "f \<le> 44100 * (1 - 1 / 2 ^ 52)"
  shows "double_round (f * double_round (1 / 44100)) < 1"
  using example_rate(1,2) assms by (rule assertion_passes)

theorem selectTable_3000_counterexample:
  "map_sum id currentTable (WavetableOscillator_new (Some example_tables) 44100 3000) = Inr (Some 2) \<and>
   map_sum id currentTable (setFrequency example_oscillator 3000) = Inr (Some 2) \<and>
   map_sum id currentTable (setFrequency example_oscillator 3000) \<noteq> Inr (Some 1)"
proof -
  have "double_round (3000 * double_round (1 / 44100)) < 1"
    by (rule assertion_at_44100) simp
  then show ?thesis
    by (simp add: WavetableOscillator_new_def WavetableOscillator_default_def setTable_def
        setFrequency_def selectTable_def updateDelta_def ForwardSearch_selectTable_def
        example_oscillator_def example_tables_def example_table_def Let_def)
qed

lemma scenario_in_sequence:
  "\<exists>s0 s1 s2.
     WavetableOscillator_new (Some example_tables) 44100 400 = Inr s0 \<and> currentTable s0 = Some 0 \<and>
     setFrequency s0 3000 = Inr s1 \<and> currentTable s1 = Some 2 \<and>
     setFrequency s1 20000 = Inr s2 \<and> currentTable s2 = Some 2"
proof -
  have "double_round (400 * double_round (1 / 44100)) < 1"
    "double_round (3000 * double_round (1 / 44100)) < 1"
    "double_round (20000 * double_round (1 / 44100)) < 1"
    by (rule assertion_at_44100, simp)+
  then show ?thesis
    by (simp add: WavetableOscillator_new_def WavetableOscillator_default_def setTable_def
        setFrequency_def selectTable_def updateDelta_def ForwardSearch_selectTable_def
        example_tables_def example_table_def Let_def)
qed

section \<open>The sample position\<close>

lemma playingE:
  assumes "playing s"
  obtains ts i where "wavetables s = Some ts" "currentTable s = Some i" "i < length ts"
    "currentTableSize s = table_size (ts ! i)"
    "\<forall>t\<in>set ts. 0 < table_size t \<and> table_size t \<le> 2 ^ 29"
    "0 < currentTableSize s" "currentTableSize s \<le> 2 ^ 29"
    "is_double (currentSamplePosition s)"
    "0 \<le> currentSamplePosition s" "currentSamplePosition s < real (currentTableSize s)"
    "delta s =
       double_round (double_round (frequency s * double_of_nat (currentTableSize s)) * sampleRateInv s)"
proof -
  from assms obtain ts i where a: "wavetables s = Some ts" "currentTable s = Some i" "i < length ts"
    "currentTableSize s = table_size (ts ! i)"
    "list_all (\<lambda>t. 0 < table_size t \<and> table_size t \<le> 2 ^ 29) ts"
    by (auto simp add: playing_def split: option.splits)
  from a(5) have b: "\<forall>t\<in>set ts. 0 < table_size t \<and> table_size t \<le> 2 ^ 29"
    by (simp add: list_all_iff)
  with a(3,4) have "0 < currentTableSize s" "currentTableSize s \<le> 2 ^ 29" by simp_all
  with a b assms that show ?thesis by (simp add: playing_def)
qed

lemma below_rate_facts:
  assumes "below_rate s r f"
  shows "1 / 2 ^ 1022 \<le> r" and "r \<le> 2 ^ 1022"
    and "sampleRateInv s = double_round (1 / r)"
    and "0 \<le> sampleRateInv s" and "sampleRateInv s \<le> 2 ^ 901"
    and "0 \<le> f" and "f * sampleRateInv s \<le> 1 - 1 / 2 ^ 51"
    and "double_round (f * sampleRateInv s) < 1"
proof -
  from assms have b: "1 / 2 ^ 900 \<le> r" "r \<le> 2 ^ 900"
    "sampleRateInv s = double_round (1 / r)" "0 \<le> f" "f \<le> r * (1 - 1 / 2 ^ 50)"
    by (simp_all add: below_rate_def)
  show lo: "1 / 2 ^ 1022 \<le> r" using b(1) by (rule order_trans[rotated]) simp
  show hi: "r \<le> 2 ^ 1022" using b(2) by (rule order_trans) simp
  show "sampleRateInv s = double_round (1 / r)" by (rule b(3))
  note p = rate_product[OF b(1,2,4,5)]
  show "0 \<le> sampleRateInv s" "sampleRateInv s \<le> 2 ^ 901" "f * sampleRateInv s \<le> 1 - 1 / 2 ^ 51"
    using p by (simp_all add: b(3))
  show "0 \<le> f" by (rule b(4))
  have r: "0 < r" using b(1) by (rule less_le_trans[rotated]) simp
  have "r * (1 - 1 / 2 ^ 50) \<le> r * (1 - 1 / 2 ^ 52)"
    using r by (intro mult_left_mono) simp_all
  with b(5) have "f \<le> r * (1 - 1 / 2 ^ 52)" by (rule order_trans)
  with lo hi have "double_round (f * double_round (1 / r)) < 1" by (rule assertion_passes)
  then show "double_round (f * sampleRateInv s) < 1" unfolding b(3) .
qed

lemma increment_range:
  assumes "below_rate s r f" and "0 < L" and "L \<le> 2 ^ 29"
  defines "d \<equiv> double_round (double_round (f * double_of_nat L) * sampleRateInv s)"
  shows "0 \<le> d" and "d < real L" and "double_round d = d"
proof -
  note b = below_rate_facts[OF assms(1)]
  show "0 \<le> d" unfolding d_def by (rule delta_range(1)[OF assms(2,3) b(6,4,5,7)])
  show "d < real L" unfolding d_def by (rule delta_range(2)[OF assms(2,3) b(6,4,5,7)])
  show "double_round d = d" by (simp add: d_def)
qed

lemma advance_playing:
  assumes "playing s" and "below_rate s r (frequency s)"
  shows "\<exists>s'. advance s = Inr s' \<and> playing s' \<and>
           frequency s' = frequency s \<and> sampleRateInv s' = sampleRateInv s \<and>
           currentTableSize s' = currentTableSize s \<and>
           currentSamplePosition s' =
             (if double_round (currentSamplePosition s + delta s) \<ge> real (currentTableSize s)
              then double_round
                     (double_round (currentSamplePosition s + delta s) - real (currentTableSize s))
              else double_round (currentSamplePosition s + delta s))"
proof -
  from assms(1) obtain ts i where p: "wavetables s = Some ts" "currentTable s = Some i" "i < length ts"
    "currentTableSize s = table_size (ts ! i)"
    "\<forall>t\<in>set ts. 0 < table_size t \<and> table_size t \<le> 2 ^ 29"
    "0 < currentTableSize s" "currentTableSize s \<le> 2 ^ 29"
    "is_double (currentSamplePosition s)"
    "0 \<le> currentSamplePosition s" "currentSamplePosition s < real (currentTableSize s)"
    "delta s =
       double_round (double_round (frequency s * double_of_nat (currentTableSize s)) * sampleRateInv s)"
    by (rule playingE)
  define L where "L = currentTableSize s"
  have "L \<le> 2 ^ 53" using p(7) unfolding L_def by (rule order_trans) simp
  then have dL: "double_of_nat L = real L" by (rule double_of_nat_small)
  note d = increment_range[OF assms(2) p(6,7), folded p(11)]
  define q where "q = double_round (currentSamplePosition s + delta s)"
  define q' where "q' = (if q \<ge> double_of_nat L then double_round (q - double_of_nat L) else q)"
  note range = advance_range[OF p(6,7,8,9,10) d(3,1,2), folded L_def, folded q_def, folded q'_def]
  let ?s' = "s\<lparr> currentSamplePosition := q', current_value := interpolate (ts ! i) q' \<rparr>"
  have "advance s = Inr ?s'"
    using p(1,2,3)
    by (simp add: advance_def read_current_table_def Let_def q'_def q_def L_def)
  moreover have "playing ?s'"
    using p(1-5,11) range by (simp add: playing_def list_all_iff L_def)
  moreover have "q' = (if q \<ge> real L then double_round (q - real L) else q)"
    by (simp add: q'_def dL)
  ultimately show ?thesis by (simp add: q_def L_def)
qed

lemma retrigger_playing:
  assumes "playing s"
  shows "\<exists>s'. retrigger s = Inr s' \<and> playing s' \<and> currentSamplePosition s' = 0 \<and>
           frequency s' = frequency s \<and> sampleRateInv s' = sampleRateInv s \<and>
           currentTableSize s' = currentTableSize s \<and> delta s' = delta s \<and>
           currentTable s' = currentTable s"
proof -
  from assms obtain ts i where p: "wavetables s = Some ts" "currentTable s = Some i" "i < length ts"
    "currentTableSize s = table_size (ts ! i)"
    "\<forall>t\<in>set ts. 0 < table_size t \<and> table_size t \<le> 2 ^ 29"
    "0 < currentTableSize s" "currentTableSize s \<le> 2 ^ 29"
    "is_double (currentSamplePosition s)"
    "0 \<le> currentSamplePosition s" "currentSamplePosition s < real (currentTableSize s)"
    "delta s =
       double_round (double_round (frequency s * double_of_nat (currentTableSize s)) * sampleRateInv s)"
    by (rule playingE)
  let ?s' = "s\<lparr> currentSamplePosition := 0, current_value := interpolate (ts ! i) 0 \<rparr>"
  have "retrigger s = Inr ?s'"
    using p(1,2,3) by (simp add: retrigger_def read_current_table_def Let_def)
  moreover have "is_double 0" by (simp add: is_double_def)
  then have "playing ?s'"
    using p(1-6,11) by (simp add: playing_def list_all_iff)
  ultimately show ?thesis by simp
qed

lemma setFrequency_playing:
  assumes "playing s" and "below_rate s r f"
  shows "\<exists>s'. setFrequency s f = Inr s' \<and> playing s' \<and> frequency s' = f \<and>
           sampleRateInv s' = sampleRateInv s \<and>
           (if bottomFreq s < f \<and> f \<le> topFreq s
            then currentSamplePosition s' = currentSamplePosition s \<and>
                 currentTableSize s' = currentTableSize s \<and> currentTable s' = currentTable s
            else currentSamplePosition s' =
                   max 0 (min (double_round (real (currentTableSize s') - double_round (1 / 10 ^ 7)))
                     (double_round
                        (double_round (currentSamplePosition s * real (currentTableSize s'))
                           / real (currentTableSize s)))) \<and>
                 currentSamplePosition s' \<le> real (currentTableSize s') - 1 / 2 ^ 24)"
proof -
  from assms(1) obtain ts i where p: "wavetables s = Some ts" "currentTable s = Some i" "i < length ts"
    "currentTableSize s = table_size (ts ! i)"
    "\<forall>t\<in>set ts. 0 < table_size t \<and> table_size t \<le> 2 ^ 29"
    "0 < currentTableSize s" "currentTableSize s \<le> 2 ^ 29"
    "is_double (currentSamplePosition s)"
    "0 \<le> currentSamplePosition s" "currentSamplePosition s < real (currentTableSize s)"
    "delta s =
       double_round (double_round (frequency s * double_of_nat (currentTableSize s)) * sampleRateInv s)"
    by (rule playingE)
  have asserted: "double_round (f * sampleRateInv s) < 1"
    using assms(2) by (rule below_rate_facts)
  show ?thesis
  proof (cases "bottomFreq s < f \<and> f \<le> topFreq s")
    case True
    let ?s' = "s\<lparr> frequency := f,
                  delta := double_round
                             (double_round (f * double_of_nat (currentTableSize s)) * sampleRateInv s) \<rparr>"
    have "setFrequency s f = Inr ?s'"
      using True asserted by (simp add: setFrequency_def selectTable_def updateDelta_def)
    moreover have "playing ?s'"
      using p(1-5,8,9,10) by (simp add: playing_def list_all_iff)
    ultimately show ?thesis using True by simp
  next
    case False
    define j where "j = (if ForwardSearch_selectTable ts f = length ts
                         then ForwardSearch_selectTable ts f - 1 else ForwardSearch_selectTable ts f)"
    define new where "new = ts ! j"
    define n where "n = table_size new"
    define limit where "limit = double_round (double_of_nat n - double_round (1 / 10 ^ 7))"
    define x where "x = double_round
                          (double_round (currentSamplePosition s * double_of_nat n)
                             / double_of_nat (currentTableSize s))"
    define pos where "pos = max 0 (min limit x)"
    define s' where "s' = s\<lparr> frequency := f,
                   currentSamplePosition := pos,
                   currentTable := Some j,
                   currentTableSize := n,
                   current_value := interpolate new pos,
                   topFreq := getMaximumPlaybackFrequency new,
                   bottomFreq := (if j = 0 then 0 else getMaximumPlaybackFrequency (ts ! (j - 1))),
                   delta := double_round (double_round (f * double_of_nat n) * sampleRateInv s) \<rparr>"
    have ne: "ts \<noteq> []" using p(3) by auto
    have "ForwardSearch_selectTable ts f \<le> length ts" by (rule ForwardSearch_selectTable_first)
    then have j: "j < length ts" using ne by (auto simp add: j_def)
    then have size: "0 < n" "n \<le> 2 ^ 29" using p(5) by (simp_all add: new_def n_def)
    have "n \<le> 2 ^ 53" using size(2) by (rule order_trans) simp
    then have dn: "double_of_nat n = real n" by (rule double_of_nat_small)
    have "currentTableSize s \<le> 2 ^ 53" using p(7) by (rule order_trans) simp
    then have dL: "double_of_nat (currentTableSize s) = real (currentTableSize s)"
      by (rule double_of_nat_small)
    from False have c: "(f \<le> topFreq s \<and> bottomFreq s < f) = False" by auto
    have sf: "setFrequency s f = Inr s'"
      unfolding s'_def pos_def limit_def x_def n_def new_def j_def
      using asserted p(1,6) ne size(1)[unfolded n_def new_def j_def]
      by (simp add: setFrequency_def selectTable_def updateDelta_def c Let_def)
    have fx: "double_round x = x" by (simp add: x_def)
    note range = clamp_range[OF size fx, folded limit_def, folded pos_def]
    note lim = clamp_limit[OF size, folded limit_def]
    have pl: "playing s'"
      using p(1,5) j range by (simp add: playing_def list_all_iff s'_def new_def n_def)
    have facts: "frequency s' = f" "sampleRateInv s' = sampleRateInv s"
      "currentSamplePosition s' = pos" "currentTableSize s' = n"
      by (simp_all add: s'_def)
    have "currentSamplePosition s' =
                   max 0 (min (double_round (real (currentTableSize s') - double_round (1 / 10 ^ 7)))
                     (double_round
                        (double_round (currentSamplePosition s * real (currentTableSize s'))
                           / real (currentTableSize s))))"
      unfolding facts pos_def limit_def x_def dn dL ..
    moreover have "currentSamplePosition s' \<le> real (currentTableSize s') - 1 / 2 ^ 24"
      unfolding facts using range(2) lim(2) by (rule order_trans)
    ultimately show ?thesis
      using False sf pl facts(1,2) by (intro exI[of _ s']) (simp only: if_False simp_thms)
  qed
qed

text \<open>
  C4, as the code has it. Let an oscillator play a table of length \<open>L\<close>, no table of its
  storage being empty or longer than \<open>2^29\<close> samples, with its position a
  \<^verbatim>\<open>double\<close> in \<open>[0, L)\<close>; let its sample rate be between \<open>2^-900\<close> and \<open>2^900\<close>
  Hz and its frequency \<open>f\<close> satisfy \<open>0 \<le> f \<le> sampleRate * (1 - 2^-50)\<close>. Then the step
  of both increment operators succeeds, adds the increment, subtracts \<open>L\<close> once if the
  rounded sum reaches \<open>L\<close>, and leaves the oscillator playing, so the position is in
  \<open>[0, L)\<close> again; \<^verbatim>\<open>retrigger\<close> sets the position to 0; and \<^verbatim>\<open>setFrequency\<close>
  with any such frequency leaves the oscillator playing: inside the cached window the
  position and the table are unchanged, outside the position is the rescaled one clamped
  between 0 and the \<^verbatim>\<open>double\<close> nearest to \<open>L' - 10^-7\<close> for the length \<open>L'\<close> of the
  table then selected, which is at most \<open>L' - 2^-24\<close>.
\<close>

theorem position_stays_in_table:
  assumes "playing s" and "below_rate s sampleRate (frequency s)"
  shows "(\<exists>s'. advance s = Inr s' \<and> playing s' \<and>
            pre_increment s = Inr (current_value s', s') \<and>
            post_increment s = Inr (current_value s, s') \<and>
            frequency s' = frequency s \<and> sampleRateInv s' = sampleRateInv s \<and>
            currentTableSize s' = currentTableSize s \<and>
            currentSamplePosition s' =
              (if double_round (currentSamplePosition s + delta s) \<ge> real (currentTableSize s)
               then double_round
                      (double_round (currentSamplePosition s + delta s) - real (currentTableSize s))
               else double_round (currentSamplePosition s + delta s)) \<and>
            0 \<le> currentSamplePosition s' \<and>
            currentSamplePosition s' < real (currentTableSize s')) \<and>
         (\<exists>s'. retrigger s = Inr s' \<and> playing s' \<and> currentSamplePosition s' = 0 \<and>
            frequency s' = frequency s \<and> sampleRateInv s' = sampleRateInv s) \<and>
         (\<forall>f. below_rate s sampleRate f \<longrightarrow>
            (\<exists>s'. setFrequency s f = Inr s' \<and> playing s' \<and> frequency s' = f \<and>
               sampleRateInv s' = sampleRateInv s \<and>
               0 \<le> currentSamplePosition s' \<and>
               currentSamplePosition s' < real (currentTableSize s') \<and>
               (if bottomFreq s < f \<and> f \<le> topFreq s
                then currentSamplePosition s' = currentSamplePosition s \<and>
                     currentTableSize s' = currentTableSize s \<and> currentTable s' = currentTable s
                else currentSamplePosition s' =
                       max 0 (min (double_round (real (currentTableSize s') - double_round (1 / 10 ^ 7)))
                         (double_round
                            (double_round (currentSamplePosition s * real (currentTableSize s'))
                               / real (currentTableSize s)))) \<and>
                     currentSamplePosition s' \<le> real (currentTableSize s') - 1 / 2 ^ 24)))"
proof (intro conjI allI impI)
  from advance_playing[OF assms]
  obtain s' where s': "advance s = Inr s'" "playing s'"
    "frequency s' = frequency s" "sampleRateInv s' = sampleRateInv s"
    "currentTableSize s' = currentTableSize s"
    "currentSamplePosition s' =
              (if double_round (currentSamplePosition s + delta s) \<ge> real (currentTableSize s)
               then double_round
                      (double_round (currentSamplePosition s + delta s) - real (currentTableSize s))
               else double_round (currentSamplePosition s + delta s))"
    by blast
  have "0 \<le> currentSamplePosition s'" "currentSamplePosition s' < real (currentTableSize s')"
    using s'(2) by (simp_all add: playing_def)
  moreover have "pre_increment s = Inr (current_value s', s')"
    "post_increment s = Inr (current_value s, s')"
    using s'(1) by (simp_all add: pre_increment_def post_increment_def)
  ultimately show "\<exists>s'. advance s = Inr s' \<and> playing s' \<and>
            pre_increment s = Inr (current_value s', s') \<and>
            post_increment s = Inr (current_value s, s') \<and>
            frequency s' = frequency s \<and> sampleRateInv s' = sampleRateInv s \<and>
            currentTableSize s' = currentTableSize s \<and>
            currentSamplePosition s' =
              (if double_round (currentSamplePosition s + delta s) \<ge> real (currentTableSize s)
               then double_round
                      (double_round (currentSamplePosition s + delta s) - real (currentTableSize s))
               else double_round (currentSamplePosition s + delta s)) \<and>
            0 \<le> currentSamplePosition s' \<and>
            currentSamplePosition s' < real (currentTableSize s')"
    using s' by blast
next
  from retrigger_playing[OF assms(1)]
  show "\<exists>s'. retrigger s = Inr s' \<and> playing s' \<and> currentSamplePosition s' = 0 \<and>
            frequency s' = frequency s \<and> sampleRateInv s' = sampleRateInv s"
    by blast
next
  fix f assume "below_rate s sampleRate f"
  from setFrequency_playing[OF assms(1) this]
  obtain s' where s': "setFrequency s f = Inr s'" "playing s'" "frequency s' = f"
    "sampleRateInv s' = sampleRateInv s"
    "if bottomFreq s < f \<and> f \<le> topFreq s
                then currentSamplePosition s' = currentSamplePosition s \<and>
                     currentTableSize s' = currentTableSize s \<and> currentTable s' = currentTable s
                else currentSamplePosition s' =
                       max 0 (min (double_round (real (currentTableSize s') - double_round (1 / 10 ^ 7)))
                         (double_round
                            (double_round (currentSamplePosition s * real (currentTableSize s'))
                               / real (currentTableSize s)))) \<and>
                     currentSamplePosition s' \<le> real (currentTableSize s') - 1 / 2 ^ 24"
    by blast
  have "0 \<le> currentSamplePosition s'" "currentSamplePosition s' < real (currentTableSize s')"
    using s'(2) by (simp_all add: playing_def)
  with s' show "\<exists>s'. setFrequency s f = Inr s' \<and> playing s' \<and> frequency s' = f \<and>
               sampleRateInv s' = sampleRateInv s \<and>
               0 \<le> currentSamplePosition s' \<and>
               currentSamplePosition s' < real (currentTableSize s') \<and>
               (if bottomFreq s < f \<and> f \<le> topFreq s
                then currentSamplePosition s' = currentSamplePosition s \<and>
                     currentTableSize s' = currentTableSize s \<and> currentTable s' = currentTable s
                else currentSamplePosition s' =
                       max 0 (min (double_round (real (currentTableSize s') - double_round (1 / 10 ^ 7)))
                         (double_round
                            (double_round (currentSamplePosition s * real (currentTableSize s'))
                               / real (currentTableSize s)))) \<and>
                     currentSamplePosition s' \<le> real (currentTableSize s') - 1 / 2 ^ 24)"
    by blast
qed

lemma example_below_rate:
  assumes "0 \<le> f" and "f \<le> 44100 * (1 - 1 / 2 ^ 50)"
  shows "below_rate example_oscillator 44100 f"
  using assms example_rate(3,4) by (simp add: below_rate_def example_oscillator_def)

lemma example_oscillator_playing:
  "playing example_oscillator"
  "below_rate example_oscillator 44100 (frequency example_oscillator)"
proof -
  have "is_double 0" by (simp add: is_double_def)
  then show "playing example_oscillator"
    by (simp add: playing_def example_oscillator_def example_tables_def example_table_def)
  have "below_rate example_oscillator 44100 1000" by (rule example_below_rate) simp_all
  then show "below_rate example_oscillator 44100 (frequency example_oscillator)"
    by (simp add: example_oscillator_def)
qed

theorem position_stays_in_table_witness:
  "playing example_oscillator \<and>
   below_rate example_oscillator 44100 (frequency example_oscillator) \<and>
   (\<exists>s'. advance example_oscillator = Inr s' \<and> playing s' \<and>
      currentSamplePosition s' = delta example_oscillator \<and>
      0 \<le> currentSamplePosition s' \<and> currentSamplePosition s' < 1024) \<and>
   (\<exists>s'. retrigger example_oscillator = Inr s' \<and> currentSamplePosition s' = 0) \<and>
   below_rate example_oscillator 44100 3000 \<and>
   (\<exists>s'. setFrequency example_oscillator 3000 = Inr s' \<and> playing s' \<and>
      0 \<le> currentSamplePosition s' \<and> currentSamplePosition s' < real (currentTableSize s'))"
proof -
  note t = position_stays_in_table[OF example_oscillator_playing]
  from t obtain s' where s': "advance example_oscillator = Inr s'" "playing s'"
      "0 \<le> currentSamplePosition s'"
      "currentSamplePosition s' < real (currentTableSize s')"
      "currentTableSize s' = currentTableSize example_oscillator"
    by blast
  have "currentTableSize example_oscillator = 1024" by (simp add: example_oscillator_def)
  with s'(4,5) have "currentSamplePosition s' < 1024" by simp
  moreover have "currentSamplePosition s' = delta example_oscillator"
    using s'(1) unfolding advance_example_oscillator by auto
  ultimately have a: "\<exists>s'. advance example_oscillator = Inr s' \<and> playing s' \<and>
      currentSamplePosition s' = delta example_oscillator \<and>
      0 \<le> currentSamplePosition s' \<and> currentSamplePosition s' < 1024"
    using s'(1,2,3) by blast
  from t have b: "\<exists>s'. retrigger example_oscillator = Inr s' \<and> currentSamplePosition s' = 0"
    by blast
  have r: "below_rate example_oscillator 44100 3000" by (rule example_below_rate) simp_all
  with t have c: "\<exists>s'. setFrequency example_oscillator 3000 = Inr s' \<and> playing s' \<and>
      0 \<le> currentSamplePosition s' \<and> currentSamplePosition s' < real (currentTableSize s')"
    by blast
  from a b c r example_oscillator_playing show ?thesis by blast
qed

text \<open>
  Two ways out of the table for a frequency below the sample rate. A negative frequency:
  \<^verbatim>\<open>setFrequency(-1000)\<close> passes the assertion, the increment it computes is negative,
  and the next step leaves the position below 0. A frequency next to the sample rate: at
  32000 Hz, with a table of 1025 samples, \<^verbatim>\<open>setFrequency(32000 - 2^-38)\<close> passes the
  assertion, the increment it computes is 1025, the length of the table, and the next
  step, from the position \<open>1025 - 2^-42\<close> that the first step had reached, rounds the
  sum to 2050 and leaves the position at 1025.
\<close>

lemma clamp_limit_1024: "0 \<le> double_round (double_of_nat 1024 - double_round (1 / 10 ^ 7))"
  by (rule clamp_limit(1)) simp_all

lemma negative_delta: "delta negative_oscillator \<le> - 1"
proof -
  have n: "double_round (- 1000 * double_of_nat 1024) = - 1024000"
  proof -
    have "double_round (of_int (- 1024000)) = of_int (- 1024000)"
      by (rule double_round_of_int) simp
    then show ?thesis by (simp add: double_of_nat_1024)
  qed
  have "(1 - 1 / 2 ^ 53) / 44100 \<le> double_round (1 / 44100)"
    using example_rate(1,2) by (rule inverse_rate_bounds)
  then have "- 1024000 * double_round (1 / 44100) \<le> - 1024000 * ((1 - 1 / 2 ^ 53) / 44100)"
    by (intro mult_left_mono_neg) simp_all
  also have "\<dots> \<le> - 1" by simp
  finally have "double_round (- 1024000 * double_round (1 / 44100)) \<le> double_round (- 1)"
    by (rule double_round_mono)
  moreover have "double_round (- 1) = - 1" using double_round_of_int[of "- 1"] by simp
  moreover have "delta negative_oscillator =
      double_round (double_round (- 1000 * double_of_nat 1024) * double_round (1 / 44100))"
    unfolding negative_oscillator_def by simp
  ultimately show ?thesis unfolding n by simp
qed

lemma inverse_32000: "double_round (1 / 32000) = 1152921504606847 / 2 ^ 65"
proof -
  have "double_round (1 / 32000) = of_int (round_half_even ((1 / 32000) * 2 ^ 67)) / 2 ^ 67"
    by (rule double_round_eval) simp_all
  also have "(1 / 32000) * 2 ^ 67 = real_of_int 576460752303423488 / of_int 125" by simp
  also have "round_half_even (real_of_int 576460752303423488 / of_int 125) = 4611686018427388"
    by (subst round_half_even_divide) (simp_all add: Let_def)
  finally show ?thesis by simp
qed

lemma edge_product_start: "double_round ((32000 - 1 / 2 ^ 37) * (1152921504606847 / 2 ^ 65)) = 4503599627370495 / 2 ^ 52"
proof -
  have "double_round ((32000 - 1 / 2 ^ 37) * (1152921504606847 / 2 ^ 65)) = of_int (round_half_even (((32000 - 1 / 2 ^ 37) * (1152921504606847 / 2 ^ 65)) * 2 ^ 53)) / 2 ^ 53"
    by (rule double_round_eval) simp_all
  also have "((32000 - 1 / 2 ^ 37) * (1152921504606847 / 2 ^ 65)) * 2 ^ 53 = real_of_int 5070602400912916558618424481153 / of_int 562949953421312" by simp
  also have "round_half_even (real_of_int 5070602400912916558618424481153 / of_int 562949953421312) = 9007199254740990"
    by (subst round_half_even_divide) (simp_all add: Let_def)
  finally show ?thesis by simp
qed

lemma edge_scaled_start: "double_round ((32000 - 1 / 2 ^ 37) * 1025) = 4402341478399999 / 2 ^ 27"
proof -
  have "double_round ((32000 - 1 / 2 ^ 37) * 1025) = of_int (round_half_even (((32000 - 1 / 2 ^ 37) * 1025) * 2 ^ 28)) / 2 ^ 28"
    by (rule double_round_eval) simp_all
  also have "((32000 - 1 / 2 ^ 37) * 1025) * 2 ^ 28 = real_of_int 4507997673881598975 / of_int 512" by simp
  also have "round_half_even (real_of_int 4507997673881598975 / of_int 512) = 8804682956799998"
    by (subst round_half_even_divide) (simp_all add: Let_def)
  finally show ?thesis by simp
qed

lemma edge_increment_start: "double_round ((4402341478399999 / 2 ^ 27) * (1152921504606847 / 2 ^ 65)) = 4507997673881599 / 2 ^ 42"
proof -
  have "double_round ((4402341478399999 / 2 ^ 27) * (1152921504606847 / 2 ^ 65)) = of_int (round_half_even (((4402341478399999 / 2 ^ 27) * (1152921504606847 / 2 ^ 65)) * 2 ^ 42)) / 2 ^ 42"
    by (rule double_round_eval) simp_all
  also have "((4402341478399999 / 2 ^ 27) * (1152921504606847 / 2 ^ 65)) * 2 ^ 42 = real_of_int 5075554161070058079821100193153 / of_int 1125899906842624" by simp
  also have "round_half_even (real_of_int 5075554161070058079821100193153 / of_int 1125899906842624) = 4507997673881599"
    by (subst round_half_even_divide) (simp_all add: Let_def)
  finally show ?thesis by simp
qed

lemma edge_product: "double_round ((32000 - 1 / 2 ^ 38) * (1152921504606847 / 2 ^ 65)) = 9007199254740991 / 2 ^ 53"
proof -
  have "double_round ((32000 - 1 / 2 ^ 38) * (1152921504606847 / 2 ^ 65)) = of_int (round_half_even (((32000 - 1 / 2 ^ 38) * (1152921504606847 / 2 ^ 65)) * 2 ^ 53)) / 2 ^ 53"
    by (rule double_round_eval) simp_all
  also have "((32000 - 1 / 2 ^ 38) * (1152921504606847 / 2 ^ 65)) * 2 ^ 53 = real_of_int 10141204801825834270158353569153 / of_int 1125899906842624" by simp
  also have "round_half_even (real_of_int 10141204801825834270158353569153 / of_int 1125899906842624) = 9007199254740991"
    by (subst round_half_even_divide) (simp_all add: Let_def)
  finally show ?thesis by simp
qed

lemma edge_scaled: "double_round ((32000 - 1 / 2 ^ 38) * 1025) = 8804682956799999 / 2 ^ 28"
proof -
  have "double_round ((32000 - 1 / 2 ^ 38) * 1025) = of_int (round_half_even (((32000 - 1 / 2 ^ 38) * 1025) * 2 ^ 28)) / 2 ^ 28"
    by (rule double_round_eval) simp_all
  also have "((32000 - 1 / 2 ^ 38) * 1025) * 2 ^ 28 = real_of_int 9015995347763198975 / of_int 1024" by simp
  also have "round_half_even (real_of_int 9015995347763198975 / of_int 1024) = 8804682956799999"
    by (subst round_half_even_divide) (simp_all add: Let_def)
  finally show ?thesis by simp
qed

lemma edge_increment: "double_round ((8804682956799999 / 2 ^ 28) * (1152921504606847 / 2 ^ 65)) = 1025"
proof -
  have "double_round ((8804682956799999 / 2 ^ 28) * (1152921504606847 / 2 ^ 65)) = of_int (round_half_even (((8804682956799999 / 2 ^ 28) * (1152921504606847 / 2 ^ 65)) * 2 ^ 42)) / 2 ^ 42"
    by (rule double_round_eval) simp_all
  also have "((8804682956799999 / 2 ^ 28) * (1152921504606847 / 2 ^ 65)) * 2 ^ 42 = real_of_int 10151108322140117312563704993153 / of_int 2251799813685248" by simp
  also have "round_half_even (real_of_int 10151108322140117312563704993153 / of_int 2251799813685248) = 4507997673881600"
    by (subst round_half_even_divide) (simp_all add: Let_def)
  finally show ?thesis by simp
qed

lemma edge_sum: "double_round (4507997673881599 / 2 ^ 42 + 1025) = 2050"
proof -
  have "double_round (4507997673881599 / 2 ^ 42 + 1025) = of_int (round_half_even ((4507997673881599 / 2 ^ 42 + 1025) * 2 ^ 41)) / 2 ^ 41"
    by (rule double_round_eval) simp_all
  also have "(4507997673881599 / 2 ^ 42 + 1025) * 2 ^ 41 = real_of_int 9015995347763199 / of_int 2" by simp
  also have "round_half_even (real_of_int 9015995347763199 / of_int 2) = 4507997673881600"
    by (subst round_half_even_divide) (simp_all add: Let_def)
  finally show ?thesis by simp
qed

lemma edge_position_fixed: "double_round (4507997673881599 / 2 ^ 42) = 4507997673881599 / 2 ^ 42"
proof -
  have "double_round (4507997673881599 / 2 ^ 42) = of_int (round_half_even ((4507997673881599 / 2 ^ 42) * 2 ^ 42)) / 2 ^ 42"
    by (rule double_round_eval) simp_all
  also have "(4507997673881599 / 2 ^ 42) * 2 ^ 42 = real_of_int 4507997673881599 / of_int 1" by simp
  also have "round_half_even (real_of_int 4507997673881599 / of_int 1) = 4507997673881599"
    by (subst round_half_even_divide) (simp_all add: Let_def)
  finally show ?thesis by simp
qed

lemma double_of_nat_1025: "double_of_nat 1025 = 1025"
  using double_of_nat_small[of 1025] by simp

lemma edge_facts:
  "double_round (edge_start_frequency * double_round (1 / 32000)) < 1"
  "double_round (double_round (edge_start_frequency * 1025) * double_round (1 / 32000)) = edge_position"
  "double_round (edge_frequency * double_round (1 / 32000)) < 1"
  "double_round (double_round (edge_frequency * 1025) * double_round (1 / 32000)) = 1025"
  "double_round (edge_position + 1025) = 2050"
  "double_round edge_position = edge_position"
  "0 \<le> edge_position" "edge_position < 1025" "\<bar>edge_position\<bar> < 2 ^ 1024"
  "0 < edge_start_frequency" "edge_start_frequency \<le> 40000"
  "0 < edge_frequency" "edge_frequency \<le> 40000" "edge_frequency < 32000"
proof -
  show "double_round (edge_start_frequency * double_round (1 / 32000)) < 1"
    unfolding edge_start_frequency_def inverse_32000 edge_product_start by simp
  show "double_round (double_round (edge_start_frequency * 1025) * double_round (1 / 32000)) = edge_position"
    unfolding edge_start_frequency_def edge_position_def inverse_32000 edge_scaled_start
      edge_increment_start ..
  show "double_round (edge_frequency * double_round (1 / 32000)) < 1"
    unfolding edge_frequency_def inverse_32000 edge_product by simp
  show "double_round (double_round (edge_frequency * 1025) * double_round (1 / 32000)) = 1025"
    unfolding edge_frequency_def inverse_32000 edge_scaled edge_increment ..
  show "double_round (edge_position + 1025) = 2050"
    unfolding edge_position_def edge_sum ..
  show "double_round edge_position = edge_position"
    unfolding edge_position_def edge_position_fixed ..
  show "0 \<le> edge_position" "edge_position < 1025" "\<bar>edge_position\<bar> < 2 ^ 1024"
    "0 < edge_start_frequency" "edge_start_frequency \<le> 40000"
    "0 < edge_frequency" "edge_frequency \<le> 40000" "edge_frequency < 32000"
    by (simp_all add: edge_position_def edge_start_frequency_def edge_frequency_def)
qed

theorem position_leaves_table_counterexample:
  "setFrequency example_oscillator (- 1000) = Inr negative_oscillator \<and>
   playing negative_oscillator \<and>
   frequency negative_oscillator < 44100 \<and>
   advance negative_oscillator =
     Inr (negative_oscillator\<lparr> currentSamplePosition := delta negative_oscillator,
                               current_value := delta negative_oscillator \<rparr>) \<and>
   delta negative_oscillator < 0 \<and>
   WavetableOscillator_new (Some [example_table 1025 40000]) 32000 edge_start_frequency
     = Inr (edge_oscillator\<lparr> currentSamplePosition := 0, current_value := 0 \<rparr>) \<and>
   advance (edge_oscillator\<lparr> currentSamplePosition := 0, current_value := 0 \<rparr>)
     = Inr edge_oscillator \<and>
   playing edge_oscillator \<and>
   0 \<le> edge_frequency \<and> edge_frequency < 32000 \<and>
   setFrequency edge_oscillator edge_frequency
     = Inr (edge_oscillator\<lparr> frequency := edge_frequency, delta := 1025 \<rparr>) \<and>
   advance (edge_oscillator\<lparr> frequency := edge_frequency, delta := 1025 \<rparr>)
     = Inr (edge_oscillator\<lparr> frequency := edge_frequency, delta := 1025,
                              currentSamplePosition := 1025, current_value := 1025 \<rparr>) \<and>
   currentTableSize edge_oscillator = 1025"
proof -
  have z: "is_double 0" by (simp add: is_double_def)
  have asserted: "double_round (- 1000 * double_round (1 / 44100)) < 1"
    by (rule assertion_at_44100) simp
  have n1: "setFrequency example_oscillator (- 1000) = Inr negative_oscillator"
    using asserted clamp_limit_1024
    by (simp add: setFrequency_def selectTable_def updateDelta_def ForwardSearch_selectTable_def
        example_oscillator_def negative_oscillator_def example_tables_def example_table_def Let_def)
  have n2: "playing negative_oscillator"
    using z by (simp add: playing_def negative_oscillator_def example_tables_def example_table_def)
  have n3: "frequency negative_oscillator < 44100" by (simp add: negative_oscillator_def)
  have n5: "delta negative_oscillator < 0" using negative_delta by simp
  have "double_round (delta negative_oscillator) = delta negative_oscillator"
    by (simp add: negative_oscillator_def)
  then have n4: "advance negative_oscillator =
     Inr (negative_oscillator\<lparr> currentSamplePosition := delta negative_oscillator,
                               current_value := delta negative_oscillator \<rparr>)"
    using n5
    by (simp add: advance_def read_current_table_def Let_def double_of_nat_1024
        negative_oscillator_def example_tables_def example_table_def)
  have e1: "WavetableOscillator_new (Some [example_table 1025 40000]) 32000 edge_start_frequency
     = Inr (edge_oscillator\<lparr> currentSamplePosition := 0, current_value := 0 \<rparr>)"
    using edge_facts
    by (simp add: WavetableOscillator_new_def WavetableOscillator_default_def setTable_def
        setFrequency_def selectTable_def updateDelta_def ForwardSearch_selectTable_def
        edge_oscillator_def example_table_def Let_def double_of_nat_1025)
  have e2: "advance (edge_oscillator\<lparr> currentSamplePosition := 0, current_value := 0 \<rparr>)
     = Inr edge_oscillator"
    using edge_facts
    by (simp add: advance_def read_current_table_def Let_def double_of_nat_1025
        edge_oscillator_def example_table_def)
  have e3: "playing edge_oscillator"
    using edge_facts
    by (simp add: playing_def is_double_def edge_oscillator_def example_table_def double_of_nat_1025)
  have e4: "setFrequency edge_oscillator edge_frequency
     = Inr (edge_oscillator\<lparr> frequency := edge_frequency, delta := 1025 \<rparr>)"
    using edge_facts
    by (simp add: setFrequency_def selectTable_def updateDelta_def edge_oscillator_def
        double_of_nat_1025)
  have e5: "advance (edge_oscillator\<lparr> frequency := edge_frequency, delta := 1025 \<rparr>)
     = Inr (edge_oscillator\<lparr> frequency := edge_frequency, delta := 1025,
                              currentSamplePosition := 1025, current_value := 1025 \<rparr>)"
  proof -
    have "double_round 1025 = 1025" using double_round_of_int[of 1025] by simp
    then show ?thesis
      using edge_facts
      by (simp add: advance_def read_current_table_def Let_def double_of_nat_1025
          edge_oscillator_def example_table_def)
  qed
  have e6: "currentTableSize edge_oscillator = 1025" by (simp add: edge_oscillator_def)
  from n1 n2 n3 n4 n5 e1 e2 e3 e4 e5 e6 edge_facts(12,14) show ?thesis by simp
qed

section \<open>The table builder\<close>

lemma antialiase_loop_traverse:
  "map_sum id (\<lambda>st'. (fft_buffer st', out_tables st')) (antialiase_loop c samplerate freqs st) =
   map_sum id (\<lambda>tables. (fft_buffer st, out_tables st @ tables))
     (traverse (band_limited_table c (fft_buffer st) samplerate) freqs)"
proof (induction freqs arbitrary: st)
  case Nil
  then show ?case by simp
next
  case (Cons freq freqs)
  show ?case
  proof (cases "antialiase_dft (fft_buffer st) samplerate freq")
    case (Inl e)
    then show ?thesis by (simp add: band_limited_table_def Let_def)
  next
    case truncated: (Inr truncated)
    show ?thesis
    proof (cases "FFTCalculator_ifft_real c truncated")
      case (Inl e)
      then show ?thesis using truncated by (simp add: band_limited_table_def Let_def)
    next
      case (Inr table)
      let ?st = "st\<lparr> copy_buffer := truncated, out_tables := out_tables st @ [table] \<rparr>"
      have step: "antialiase_loop c samplerate (freq # freqs) st = antialiase_loop c samplerate freqs ?st"
        using truncated Inr by (simp add: Let_def)
      have head: "band_limited_table c (fft_buffer st) samplerate freq = Inr table"
        using truncated Inr by (simp add: band_limited_table_def)
      show ?thesis
        unfolding step Cons.IH[of ?st]
        using head by (cases "traverse (band_limited_table c (fft_buffer st) samplerate) freqs") simp_all
    qed
  qed
qed

lemma traverse_Inr_iff:
  "traverse f xs = Inr ys \<longleftrightarrow> length ys = length xs \<and> (\<forall>i<length xs. f (xs ! i) = Inr (ys ! i))"
proof (induction xs arbitrary: ys)
  case Nil
  then show ?case by auto
next
  case (Cons x xs)
  show ?case
  proof (cases ys)
    case Nil
    then show ?thesis by (auto split: sum.splits)
  next
    case (Cons y ys')
    have "traverse f (x # xs) = Inr (y # ys') \<longleftrightarrow> f x = Inr y \<and> traverse f xs = Inr ys'"
      by (auto split: sum.splits)
    also have "\<dots> \<longleftrightarrow> f x = Inr y \<and> length ys' = length xs \<and> (\<forall>i<length xs. f (xs ! i) = Inr (ys' ! i))"
      by (simp add: Cons.IH)
    also have "\<dots> \<longleftrightarrow> length (y # ys') = length (x # xs) \<and>
                     (\<forall>i<length (x # xs). f ((x # xs) ! i) = Inr ((y # ys') ! i))"
      by (auto simp add: nth_Cons' less_Suc_eq_0_disj)
    finally show ?thesis using Cons by simp
  qed
qed

text \<open>
  C5. The builder returns what the per-frequency description returns: it fails where the
  forward transform or the first failing frequency fails, and otherwise its tables are,
  in the order of the frequencies, the real inverse transforms of \<^verbatim>\<open>antialiase_dft\<close>
  applied to the forward-transformed spectrum of the signal itself, which the loop never
  changes.
\<close>

theorem antialiase_tables_independent:
  "antialiase signal freqs samplerate c =
     (if length signal < size_N c then Inl UndefinedBehaviour
      else case FFTCalculator_fft c (map complex_of_real signal) of
             Inl e \<Rightarrow> Inl e
           | Inr spectrum \<Rightarrow> traverse (band_limited_table c spectrum samplerate) freqs) \<and>
   (antialiase signal freqs samplerate c = Inr tables \<longrightarrow>
      (\<exists>spectrum. FFTCalculator_fft c (map complex_of_real signal) = Inr spectrum \<and>
         length tables = length freqs \<and>
         (\<forall>i<length freqs. \<exists>truncated.
            antialiase_dft spectrum samplerate (freqs ! i) = Inr truncated \<and>
            FFTCalculator_ifft_real c truncated = Inr (tables ! i)))) \<and>
   (\<forall>st st'. antialiase_loop c samplerate freqs st = Inr st' \<longrightarrow>
      fft_buffer st' = fft_buffer st)"
proof (intro conjI allI impI)
  show eq: "antialiase signal freqs samplerate c =
     (if length signal < size_N c then Inl UndefinedBehaviour
      else case FFTCalculator_fft c (map complex_of_real signal) of
             Inl e \<Rightarrow> Inl e
           | Inr spectrum \<Rightarrow> traverse (band_limited_table c spectrum samplerate) freqs)"
  proof (cases "length signal < size_N c")
    case True
    then show ?thesis by (simp add: antialiase_def)
  next
    case False
    show ?thesis
    proof (cases "FFTCalculator_fft c (map complex_of_real signal)")
      case (Inl e)
      then show ?thesis using False by (simp add: antialiase_def)
    next
      case (Inr spectrum)
      let ?st = "\<lparr>fft_buffer = spectrum, copy_buffer = [], out_tables = []\<rparr>"
      from antialiase_loop_traverse[of c samplerate freqs ?st]
      have "map_sum id out_tables (antialiase_loop c samplerate freqs ?st) =
            traverse (band_limited_table c spectrum samplerate) freqs"
        by (cases "antialiase_loop c samplerate freqs ?st";
            cases "traverse (band_limited_table c spectrum samplerate) freqs") simp_all
      then show ?thesis
        using False Inr
        by (cases "antialiase_loop c samplerate freqs ?st") (simp_all add: antialiase_def)
    qed
  qed
  show "\<exists>spectrum. FFTCalculator_fft c (map complex_of_real signal) = Inr spectrum \<and>
         length tables = length freqs \<and>
         (\<forall>i<length freqs. \<exists>truncated.
            antialiase_dft spectrum samplerate (freqs ! i) = Inr truncated \<and>
            FFTCalculator_ifft_real c truncated = Inr (tables ! i))"
    if r: "antialiase signal freqs samplerate c = Inr tables"
  proof -
    from r eq obtain spectrum where sp: "FFTCalculator_fft c (map complex_of_real signal) = Inr spectrum"
      "traverse (band_limited_table c spectrum samplerate) freqs = Inr tables"
      by (auto split: if_splits sum.splits)
    from sp(2) have len: "length tables = length freqs"
      and each: "\<forall>i<length freqs. band_limited_table c spectrum samplerate (freqs ! i) = Inr (tables ! i)"
      by (simp_all add: traverse_Inr_iff)
    have "\<forall>i<length freqs. \<exists>truncated.
            antialiase_dft spectrum samplerate (freqs ! i) = Inr truncated \<and>
            FFTCalculator_ifft_real c truncated = Inr (tables ! i)"
    proof (intro allI impI)
      fix i assume "i < length freqs"
      with each have "band_limited_table c spectrum samplerate (freqs ! i) = Inr (tables ! i)" by simp
      then show "\<exists>truncated.
            antialiase_dft spectrum samplerate (freqs ! i) = Inr truncated \<and>
            FFTCalculator_ifft_real c truncated = Inr (tables ! i)"
        by (auto simp add: band_limited_table_def split: sum.splits)
    qed
    with sp(1) len show ?thesis by blast
  qed
  show "fft_buffer st' = fft_buffer st" if "antialiase_loop c samplerate freqs st = Inr st'" for st st'
    using that antialiase_loop_traverse[of c samplerate freqs st]
    by (cases "traverse (band_limited_table c (fft_buffer st) samplerate) freqs") simp_all
qed

lemma butterfly_s_two:
  assumes "N = 2" and "lg = 1"
  shows "butterfly_s N lg wm 0 [a, b] = Inr [a + b, a - b]"
  unfolding assms
  by (simp add: butterfly_s.simps butterfly_j.simps butterfly_k.simps Let_def)

lemma example_calculator_new: "FFTCalculator_new 2 = Inr example_calculator"
  by (simp add: FFTCalculator_new_def isPowerOf2_def word_sless_alt log2OfPowerOf2_def
      deBruijnBitPosition2_def bitReverse_int_def Let_def upt_rec example_calculator_def)

lemma example_calculator_fft:
  "FFTCalculator_fft example_calculator [a, b] =
     Inr [complex_of_real (1 / sqrt 2) * a + complex_of_real (1 / sqrt 2) * b,
          complex_of_real (1 / sqrt 2) * a - complex_of_real (1 / sqrt 2) * b]"
  by (simp add: FFTCalculator_fft_def permute_input_def read_at_def example_calculator_def
      upt_rec butterfly_s_two del: of_real_divide)

lemma example_calculator_ifft_real:
  "FFTCalculator_ifft_real example_calculator [a, b] =
     Inr [Re a / sqrt 2 + Re b / sqrt 2, Re a / sqrt 2 - Re b / sqrt 2]"
  by (simp add: FFTCalculator_ifft_real_def permute_input_def read_at_def example_calculator_def
      upt_rec butterfly_s_two del: of_real_divide)

lemma example_truncations:
  "antialiase_dft [a, b] 2 2 = Inr [Complex (Re a) 0, 0]"
  "antialiase_dft [a, b] 2 (1 / 4) = Inr [a, b]"
proof -
  have "1 / 2 * double_scale = of_int 1 * 2 ^ 1073" by (simp add: double_scale_def)
  then have "double_round (1 / 2) = 1 / 2" by (rule double_round_fixed) simp
  moreover have "double_round 4 = 4" using double_round_of_int[of 4] by simp
  ultimately show "antialiase_dft [a, b] 2 2 = Inr [Complex (Re a) 0, 0]"
    "antialiase_dft [a, b] 2 (1 / 4) = Inr [a, b]"
    by (simp_all add: antialiase_dft_def cutoff_index_def Let_def zero_bins.simps)
qed

theorem antialiase_tables_independent_witness:
  "antialiase [1, 0] [2, 1 / 4] 2 example_calculator = Inr [[1 / 2, 1 / 2], [1, 0]] \<and>
   (\<exists>spectrum. FFTCalculator_fft example_calculator (map complex_of_real [1, 0]) = Inr spectrum \<and>
      (\<exists>truncated. antialiase_dft spectrum 2 2 = Inr truncated \<and>
         FFTCalculator_ifft_real example_calculator truncated = Inr [1 / 2, 1 / 2]) \<and>
      (\<exists>truncated. antialiase_dft spectrum 2 (1 / 4) = Inr truncated \<and>
         FFTCalculator_ifft_real example_calculator truncated = Inr [1, 0]))"
proof -
  note t = antialiase_tables_independent[of "[1, 0]" "[2, 1 / 4]" 2 example_calculator
      "[[1 / 2, 1 / 2], [1, 0]]"]
  have half: "1 / sqrt 2 * (1 / sqrt 2) = (1 / 2 :: real)"
    by (simp add: field_simps)
  have n: "size_N example_calculator = 2" by (simp add: example_calculator_def)
  have r: "antialiase [1, 0] [2, 1 / 4] 2 example_calculator = Inr [[1 / 2, 1 / 2], [1, 0]]"
    unfolding t[THEN conjunct1]
    by (simp add: n example_calculator_fft example_truncations example_calculator_ifft_real
        band_limited_table_def half del: of_real_divide)
  from t[THEN conjunct2, THEN conjunct1, rule_format, OF r]
  obtain spectrum where sp:
    "FFTCalculator_fft example_calculator (map complex_of_real [1, 0]) = Inr spectrum"
    "\<forall>i<length [2, 1 / 4 :: real]. \<exists>truncated.
       antialiase_dft spectrum 2 ([2, 1 / 4] ! i) = Inr truncated \<and>
       FFTCalculator_ifft_real example_calculator truncated = Inr ([[1 / 2, 1 / 2], [1, 0]] ! i)"
    by blast
  from sp(2)[rule_format, of 0] sp(2)[rule_format, of 1]
  have "\<exists>truncated. antialiase_dft spectrum 2 2 = Inr truncated \<and>
         FFTCalculator_ifft_real example_calculator truncated = Inr [1 / 2, 1 / 2]"
    "\<exists>truncated. antialiase_dft spectrum 2 (1 / 4) = Inr truncated \<and>
         FFTCalculator_ifft_real example_calculator truncated = Inr [1, 0]"
    by simp_all
  with r sp(1) show ?thesis by blast
qed

section \<open>Roots of unity and the butterfly identity\<close>

lemma unit_root_square: "unit_root d (Suc s) ^ 2 = unit_root d s"
proof -
  have "real 2 * (d * (2 * pi) / 2 ^ Suc s) = d * (2 * pi) / 2 ^ s" by simp
  then show ?thesis unfolding unit_root_def DeMoivre by (simp only:)
qed

lemma unit_root_Suc_stage: "unit_root d (Suc s) = cis (d * pi / 2 ^ s)"
  by (simp add: unit_root_def)

lemma unit_root_full:
  assumes "d = 1 \<or> d = - 1"
  shows "unit_root d s ^ (2 ^ s) = 1"
proof -
  have "unit_root d s ^ (2 ^ s) = cis (d * (2 * pi))"
    by (simp add: unit_root_def DeMoivre)
  also have "\<dots> = 1"
    using assms by (auto simp add: complex_eq_iff)
  finally show ?thesis .
qed

lemma unit_root_half:
  assumes "d = 1 \<or> d = - 1"
  shows "unit_root d (Suc s) ^ (2 ^ s) = - 1"
proof -
  have "unit_root d (Suc s) ^ (2 ^ s) = cis (d * pi)"
    by (simp add: unit_root_def DeMoivre)
  also have "\<dots> = - 1"
    using assms by (auto simp add: complex_eq_iff)
  finally show ?thesis .
qed

lemma sum_even_odd:
  fixes f :: "nat \<Rightarrow> complex"
  shows "(\<Sum>q<2 * M. f q) = (\<Sum>p<M. f (2 * p)) + (\<Sum>p<M. f (2 * p + 1))"
  by (induction M) (simp_all add: algebra_simps)

lemma sub_dft_zero: "sub_dft d n x 0 c r = x c"
  by (simp add: sub_dft_def)

lemma sub_dft_butterfly:
  assumes "s < n" and "d = 1 \<or> d = - 1"
  defines "D \<equiv> 2 ^ (n - Suc s)"
  shows "sub_dft d n x (Suc s) c r =
           sub_dft d n x s c r + unit_root d (Suc s) ^ r * sub_dft d n x s (c + D) r"
    and "sub_dft d n x (Suc s) c (r + 2 ^ s) =
           sub_dft d n x s c r - unit_root d (Suc s) ^ r * sub_dft d n x s (c + D) r"
proof -
  let ?w = "unit_root d (Suc s)"
  let ?v = "unit_root d s"
  have stride: "(2::nat) ^ (n - s) = 2 * D"
    using assms(1) by (simp add: D_def Suc_diff_Suc flip: power_Suc)
  have even_idx: "2 * p * D + c = p * 2 ^ (n - s) + c" for p
    by (simp add: stride)
  have odd_idx: "(2 * p + 1) * D + c = p * 2 ^ (n - s) + (c + D)" for p
    by (simp add: stride algebra_simps)
  have w_even: "?w ^ (2 * p * r) = ?v ^ (p * r)" for p r
    by (metis mult.assoc power_mult unit_root_square)
  have w_odd: "?w ^ ((2 * p + 1) * r) = ?v ^ (p * r) * ?w ^ r" for p r
    using w_even[of p r] by (simp add: algebra_simps power_add)
  have v_full: "?v ^ (p * 2 ^ s) = 1" for p
    by (metis mult.commute power_mult power_one unit_root_full[OF assms(2)])
  have split: "sub_dft d n x (Suc s) c r' =
        (\<Sum>p<2 ^ s. x (p * 2 ^ (n - s) + c) * ?w ^ (2 * p * r')) +
        (\<Sum>p<2 ^ s. x (p * 2 ^ (n - s) + (c + D)) * ?w ^ ((2 * p + 1) * r'))" for r'
    unfolding sub_dft_def power_Suc sum_even_odd D_def[symmetric]
    by (simp only: even_idx odd_idx)
  have low: "(\<Sum>p<2 ^ s. x (p * 2 ^ (n - s) + c') * ?v ^ (p * r)) = sub_dft d n x s c' r" for c'
    by (simp add: sub_dft_def)
  have "sub_dft d n x (Suc s) c r =
        (\<Sum>p<2 ^ s. x (p * 2 ^ (n - s) + c) * ?v ^ (p * r)) +
        (\<Sum>p<2 ^ s. x (p * 2 ^ (n - s) + (c + D)) * (?v ^ (p * r) * ?w ^ r))"
    unfolding split[of r] w_even w_odd ..
  also have "(\<Sum>p<2 ^ s. x (p * 2 ^ (n - s) + (c + D)) * (?v ^ (p * r) * ?w ^ r)) =
        ?w ^ r * (\<Sum>p<2 ^ s. x (p * 2 ^ (n - s) + (c + D)) * ?v ^ (p * r))"
    by (simp add: sum_distrib_left mult_ac)
  finally show "sub_dft d n x (Suc s) c r =
           sub_dft d n x s c r + ?w ^ r * sub_dft d n x s (c + D) r"
    unfolding low .
  have e: "?w ^ (2 * p * (r + 2 ^ s)) = ?v ^ (p * r)" for p
    unfolding w_even by (simp add: distrib_left power_add v_full)
  have o: "?w ^ ((2 * p + 1) * (r + 2 ^ s)) = - (?v ^ (p * r) * ?w ^ r)" for p
  proof -
    have "?w ^ ((2 * p + 1) * (r + 2 ^ s)) = ?w ^ (2 * p * (r + 2 ^ s)) * ?w ^ (r + 2 ^ s)"
      by (simp add: algebra_simps power_add)
    also have "\<dots> = ?v ^ (p * r) * (?w ^ r * ?w ^ (2 ^ s))"
      unfolding e by (simp add: power_add)
    also have "\<dots> = - (?v ^ (p * r) * ?w ^ r)"
      by (simp add: unit_root_half[OF assms(2)])
    finally show ?thesis .
  qed
  have "sub_dft d n x (Suc s) c (r + 2 ^ s) =
        (\<Sum>p<2 ^ s. x (p * 2 ^ (n - s) + c) * ?v ^ (p * r)) +
        (\<Sum>p<2 ^ s. x (p * 2 ^ (n - s) + (c + D)) * - (?v ^ (p * r) * ?w ^ r))"
    unfolding split[of "r + 2 ^ s"] e o ..
  also have "(\<Sum>p<2 ^ s. x (p * 2 ^ (n - s) + (c + D)) * - (?v ^ (p * r) * ?w ^ r)) =
        - (?w ^ r * (\<Sum>p<2 ^ s. x (p * 2 ^ (n - s) + (c + D)) * ?v ^ (p * r)))"
    by (simp add: sum_distrib_left sum_negf mult_ac)
  finally show "sub_dft d n x (Suc s) c (r + 2 ^ s) =
           sub_dft d n x s c r - ?w ^ r * sub_dft d n x s (c + D) r"
    unfolding low by simp
qed

section \<open>Inversion of the discrete transform\<close>

lemma unit_root_inverse: "unit_root 1 n * unit_root (- 1) n = 1"
  by (simp add: unit_root_def cis_mult)

lemma unit_root_ratio_neq_1:
  assumes "j < 2 ^ n" and "l < 2 ^ n" and "j \<noteq> l"
  shows "unit_root 1 n ^ j * unit_root (- 1) n ^ l \<noteq> 1"
proof
  let ?N = "(2::nat) ^ n"
  assume one: "unit_root 1 n ^ j * unit_root (- 1) n ^ l = 1"
  have "unit_root 1 n ^ j * unit_root (- 1) n ^ l
          = cis (real j * (2 * pi / 2 ^ n) + real l * (- (2 * pi) / 2 ^ n))"
    by (simp add: unit_root_def DeMoivre cis_mult)
  also have "real j * (2 * pi / 2 ^ n) + real l * (- (2 * pi) / 2 ^ n)
          = (real j - real l) * (2 * pi) / 2 ^ n"
    by (simp add: field_simps)
  finally have "cis ((real j - real l) * (2 * pi) / 2 ^ n) = 1"
    using one by simp
  then have "cos ((real j - real l) * (2 * pi) / 2 ^ n) = 1"
    by (simp add: complex_eq_iff)
  then obtain k :: int where k: "(real j - real l) * (2 * pi) / 2 ^ n = real_of_int k * 2 * pi"
    unfolding cos_one_2pi_int by blast
  have "(real j - real l) * (2 * pi) = real_of_int k * 2 ^ n * (2 * pi)"
    using k by (simp add: field_simps)
  then have "real j - real l = real_of_int k * 2 ^ n"
    by simp
  then have "real_of_int (int j - int l) = real_of_int (k * 2 ^ n)"
    by simp
  then have eq: "int j - int l = k * 2 ^ n"
    by (simp only: of_int_eq_iff)
  have "int j < 2 ^ n" "int l < 2 ^ n"
    using assms(1,2) by simp_all
  then have "\<bar>int j - int l\<bar> < 2 ^ n"
    by linarith
  then have "\<bar>k\<bar> * 2 ^ n < 1 * 2 ^ n"
    unfolding eq by (simp add: abs_mult)
  then have "\<bar>k\<bar> < 1" by simp
  then have "k = 0" by simp
  with eq assms(3) show False by simp
qed

lemma unit_root_orthogonal:
  assumes "j < 2 ^ n" and "l < 2 ^ n"
  shows "(\<Sum>k<2 ^ n. unit_root 1 n ^ (j * k) * unit_root (- 1) n ^ (k * l))
           = (if j = l then of_nat (2 ^ n) else 0)"
proof -
  let ?W = "unit_root 1 n" and ?V = "unit_root (- 1) n"
  let ?rho = "?W ^ j * ?V ^ l"
  have tm: "?W ^ (j * k) * ?V ^ (k * l) = ?rho ^ k" for k
    by (simp add: power_mult power_mult_distrib mult.commute[of k l])
  show ?thesis
  proof (cases "j = l")
    case True
    have "?rho = 1"
      unfolding True by (simp add: unit_root_inverse flip: power_mult_distrib)
    then show ?thesis using True unfolding tm by simp
  next
    case False
    have ne: "?rho \<noteq> 1" using assms False by (rule unit_root_ratio_neq_1)
    have "?rho ^ (2 ^ n) = (?W ^ (2 ^ n)) ^ j * (?V ^ (2 ^ n)) ^ l"
      by (simp add: power_mult_distrib power_mult[symmetric] mult.commute)
    also have "\<dots> = 1"
      by (simp add: unit_root_full)
    finally have "?rho ^ (2 ^ n) = 1" .
    then have "(\<Sum>k<2 ^ n. ?rho ^ k) = 0"
      using geometric_sum[OF ne, of "2 ^ n"] by simp
    then show ?thesis using False unfolding tm by simp
  qed
qed

lemma dft_inverse:
  fixes x :: "nat \<Rightarrow> complex"
  assumes "l < 2 ^ n" and nm: "nm = complex_of_real (1 / sqrt (2 ^ n))"
  shows "nm * sub_dft (- 1) n (\<lambda>k. nm * sub_dft 1 n x n 0 k) n 0 l = x l"
proof -
  let ?W = "unit_root 1 n" and ?V = "unit_root (- 1) n"
  let ?N = "(2::nat) ^ n"
  have "sub_dft (- 1) n (\<lambda>k. nm * sub_dft 1 n x n 0 k) n 0 l
          = (\<Sum>k<?N. nm * (\<Sum>j<?N. x j * ?W ^ (j * k)) * ?V ^ (k * l))"
    by (simp add: sub_dft_def)
  also have "\<dots> = (\<Sum>k<?N. \<Sum>j<?N. nm * (x j * (?W ^ (j * k) * ?V ^ (k * l))))"
    by (simp add: sum_distrib_left sum_distrib_right mult_ac)
  also have "\<dots> = (\<Sum>j<?N. \<Sum>k<?N. nm * (x j * (?W ^ (j * k) * ?V ^ (k * l))))"
    by (rule sum.swap)
  also have "\<dots> = (\<Sum>j<?N. nm * (x j * (\<Sum>k<?N. ?W ^ (j * k) * ?V ^ (k * l))))"
    by (simp add: sum_distrib_left)
  also have "\<dots> = (\<Sum>j<?N. nm * (x j * (if j = l then of_nat ?N else 0)))"
    by (intro sum.cong refl) (simp add: unit_root_orthogonal assms(1))
  also have "\<dots> = (\<Sum>j<?N. if j = l then nm * (x l * of_nat ?N) else 0)"
    by (intro sum.cong refl) simp
  also have "\<dots> = nm * (x l * of_nat ?N)"
    using assms(1) by simp
  finally have "sub_dft (- 1) n (\<lambda>k. nm * sub_dft 1 n x n 0 k) n 0 l = nm * (x l * of_nat ?N)" .
  then have "nm * sub_dft (- 1) n (\<lambda>k. nm * sub_dft 1 n x n 0 k) n 0 l
          = (nm * nm * of_nat ?N) * x l"
    by (simp only: mult_ac)
  moreover have "nm * nm * of_nat ?N = 1"
  proof -
    have "nm * nm = complex_of_real (1 / sqrt (2 ^ n) * (1 / sqrt (2 ^ n)))"
      unfolding nm by (simp only: of_real_mult)
    also have "1 / sqrt (2 ^ n) * (1 / sqrt (2 ^ n)) = 1 / (2 ^ n :: real)"
      by (simp add: field_simps)
    finally show ?thesis by simp
  qed
  ultimately show ?thesis by (simp only: mult_1)
qed

section \<open>The two inner loops\<close>

lemma block_index_eq:
  fixes m :: nat
  assumes "r < m" and "r' < m"
  shows "b * m + r = b' * m + r' \<longleftrightarrow> b = b' \<and> r = r'"
proof
  assume eq: "b * m + r = b' * m + r'"
  have "(b * m + r) div m = b" "(b * m + r) mod m = r"
    "(b' * m + r') div m = b'" "(b' * m + r') mod m = r'"
    using assms by simp_all
  with eq show "b = b' \<and> r = r'" by metis
qed simp

lemma block_index_less:
  fixes m :: nat
  assumes "b < B" and "r < m"
  shows "b * m + r < B * m"
proof -
  have "b * m + r < b * m + m" using assms(2) by simp
  also have "\<dots> = Suc b * m" by simp
  also have "\<dots> \<le> B * m" using assms(1) by (intro mult_le_mono1) simp
  finally show ?thesis .
qed

lemma butterfly_k_blocks:
  fixes s :: nat and w :: complex
  defines "M \<equiv> 2 ^ s"
  defines "m \<equiv> 2 * 2 ^ s"
  assumes "length out = B * m" and "j < M" and "b0 \<le> B"
  shows "\<exists>out'. butterfly_k (B * m) s w (b0 * m + j) out = Inr out' \<and> length out' = B * m \<and>
           (\<forall>b<B. \<forall>r<m. out' ! (b * m + r) =
              (if b0 \<le> b \<and> r = j then out ! (b * m + j) + w * out ! (b * m + (j + M))
               else if b0 \<le> b \<and> r = j + M then out ! (b * m + j) - w * out ! (b * m + (j + M))
               else out ! (b * m + r)))"
  using assms(3,5)
proof (induction "B - b0" arbitrary: b0 out)
  case 0
  then have "b0 = B" by simp
  then have "\<not> b0 * m + j < B * m" by simp
  then have "butterfly_k (B * m) s w (b0 * m + j) out = Inr out"
    by (subst butterfly_k.simps) simp
  then show ?case using "0.prems"(1) \<open>b0 = B\<close> by auto
next
  case (Suc d)
  then have b0: "b0 < B" by simp
  have jm: "j < m" "j + M < m" using assms(4) by (simp_all add: m_def M_def)
  have M0: "0 < M" by (simp add: M_def)
  let ?k = "b0 * m + j"
  have k: "?k < B * m" using b0 jm(1) by (rule block_index_less)
  have kM: "?k + M < B * m"
    using block_index_less[OF b0 jm(2)] by (simp add: add.assoc)
  let ?t = "w * out ! (?k + M)"
  let ?u = "out ! ?k"
  let ?out1 = "out[?k := ?u + ?t, ?k + M := ?u - ?t]"
  have step: "butterfly_k (B * m) s w ?k out = butterfly_k (B * m) s w (Suc b0 * m + j) ?out1"
    using k kM Suc.prems(1)
    by (subst butterfly_k.simps) (simp add: M_def m_def Let_def algebra_simps)
  have len1: "length ?out1 = B * m" using Suc.prems(1) by simp
  have d: "d = B - Suc b0" using Suc.hyps(2) by simp
  from Suc.hyps(1)[OF d len1] b0
  obtain out' where out': "butterfly_k (B * m) s w (Suc b0 * m + j) ?out1 = Inr out'"
    "length out' = B * m"
    "\<forall>b<B. \<forall>r<m. out' ! (b * m + r) =
              (if Suc b0 \<le> b \<and> r = j then ?out1 ! (b * m + j) + w * ?out1 ! (b * m + (j + M))
               else if Suc b0 \<le> b \<and> r = j + M then ?out1 ! (b * m + j) - w * ?out1 ! (b * m + (j + M))
               else ?out1 ! (b * m + r))"
    by auto
  have out1: "?out1 ! (b * m + r) =
        (if b = b0 \<and> r = j + M then ?u - ?t
         else if b = b0 \<and> r = j then ?u + ?t
         else out ! (b * m + r))" if "b < B" "r < m" for b r
  proof -
    have i: "b * m + r < length out"
      using block_index_less[OF that] Suc.prems(1) by simp
    have e1: "b0 * m + j + M = b * m + r \<longleftrightarrow> b0 = b \<and> j + M = r"
      using block_index_eq[OF jm(2) that(2), of b0 b] by (simp add: add.assoc)
    have e2: "b0 * m + j = b * m + r \<longleftrightarrow> b0 = b \<and> j = r"
      using block_index_eq[OF jm(1) that(2), of b0 b] by simp
    show ?thesis
      using i k kM Suc.prems(1) by (auto simp add: nth_list_update e1 e2)
  qed
  have "\<forall>b<B. \<forall>r<m. out' ! (b * m + r) =
              (if b0 \<le> b \<and> r = j then out ! (b * m + j) + w * out ! (b * m + (j + M))
               else if b0 \<le> b \<and> r = j + M then out ! (b * m + j) - w * out ! (b * m + (j + M))
               else out ! (b * m + r))"
  proof (intro allI impI)
    fix b r assume br: "b < B" "r < m"
    show "out' ! (b * m + r) =
              (if b0 \<le> b \<and> r = j then out ! (b * m + j) + w * out ! (b * m + (j + M))
               else if b0 \<le> b \<and> r = j + M then out ! (b * m + j) - w * out ! (b * m + (j + M))
               else out ! (b * m + r))"
      using out'(3)[rule_format, OF br] out1[OF br(1) jm(1)] out1[OF br(1) jm(2)] out1[OF br] M0
      by (auto simp add: add.assoc)
  qed
  with step out'(1,2) show ?case by simp
qed

lemma butterfly_j_blocks:
  fixes s :: nat and wm :: complex
  defines "M \<equiv> 2 ^ s"
  defines "m \<equiv> 2 * 2 ^ s"
  assumes "length out = B * m" and "j0 \<le> M"
  shows "\<exists>out'. butterfly_j (B * m) s wm (wm ^ j0) j0 out = Inr out' \<and> length out' = B * m \<and>
           (\<forall>b<B. \<forall>r<m. out' ! (b * m + r) =
              (if j0 \<le> r \<and> r < M then out ! (b * m + r) + wm ^ r * out ! (b * m + (r + M))
               else if j0 + M \<le> r then out ! (b * m + (r - M)) - wm ^ (r - M) * out ! (b * m + r)
               else out ! (b * m + r)))"
  using assms(3,4)
proof (induction "M - j0" arbitrary: j0 out)
  case 0
  then have "j0 = M" by simp
  then have "butterfly_j (B * m) s wm (wm ^ j0) j0 out = Inr out"
    by (subst butterfly_j.simps) (simp add: M_def)
  moreover have "\<not> (j0 + M \<le> r)" if "r < m" for r
    using that \<open>j0 = M\<close> by (simp add: m_def M_def)
  ultimately show ?case using "0.prems"(1) \<open>j0 = M\<close> by auto
next
  case (Suc d)
  then have j0: "j0 < M" by simp
  have M0: "0 < M" by (simp add: M_def)
  have m2: "m = M + M" by (simp add: m_def M_def)
  from butterfly_k_blocks[of out B s j0 0 "wm ^ j0"] Suc.prems(1) j0
  obtain out1 where out1: "butterfly_k (B * m) s (wm ^ j0) j0 out = Inr out1"
    "length out1 = B * m"
    "\<forall>b<B. \<forall>r<m. out1 ! (b * m + r) =
              (if r = j0 then out ! (b * m + j0) + wm ^ j0 * out ! (b * m + (j0 + M))
               else if r = j0 + M then out ! (b * m + j0) - wm ^ j0 * out ! (b * m + (j0 + M))
               else out ! (b * m + r))"
    by (auto simp add: M_def m_def)
  have step: "butterfly_j (B * m) s wm (wm ^ j0) j0 out
                = butterfly_j (B * m) s wm (wm ^ Suc j0) (Suc j0) out1"
    using j0 out1(1) by (subst butterfly_j.simps) (simp add: M_def mult.commute)
  have d: "d = M - Suc j0" using Suc.hyps(2) by simp
  from Suc.hyps(1)[OF d out1(2)] j0
  obtain out' where out': "butterfly_j (B * m) s wm (wm ^ Suc j0) (Suc j0) out1 = Inr out'"
    "length out' = B * m"
    "\<forall>b<B. \<forall>r<m. out' ! (b * m + r) =
              (if Suc j0 \<le> r \<and> r < M then out1 ! (b * m + r) + wm ^ r * out1 ! (b * m + (r + M))
               else if Suc j0 + M \<le> r then out1 ! (b * m + (r - M)) - wm ^ (r - M) * out1 ! (b * m + r)
               else out1 ! (b * m + r))"
    by auto
  have "\<forall>b<B. \<forall>r<m. out' ! (b * m + r) =
              (if j0 \<le> r \<and> r < M then out ! (b * m + r) + wm ^ r * out ! (b * m + (r + M))
               else if j0 + M \<le> r then out ! (b * m + (r - M)) - wm ^ (r - M) * out ! (b * m + r)
               else out ! (b * m + r))"
  proof (intro allI impI)
    fix b r assume br: "b < B" "r < m"
    note o1 = out1(3)[rule_format, OF br(1)]
    note o' = out'(3)[rule_format, OF br]
    consider (a) "r = j0" | (b) "r = j0 + M" | (c) "Suc j0 \<le> r" "r < M"
      | (d) "Suc j0 + M \<le> r" | (e) "r < j0" | (f) "M \<le> r" "r < j0 + M"
      by linarith
    then show "out' ! (b * m + r) =
              (if j0 \<le> r \<and> r < M then out ! (b * m + r) + wm ^ r * out ! (b * m + (r + M))
               else if j0 + M \<le> r then out ! (b * m + (r - M)) - wm ^ (r - M) * out ! (b * m + r)
               else out ! (b * m + r))"
    proof cases
      case a
      then show ?thesis using o' o1[OF br(2)] j0 by simp
    next
      case b
      then show ?thesis using o' o1[OF br(2)] j0 M0 by simp
    next
      case c
      then have "r + M < m" "r + M \<noteq> j0" "r + M \<noteq> j0 + M" "r \<noteq> j0" "r \<noteq> j0 + M"
        using m2 by simp_all
      then show ?thesis using c o' o1[OF br(2)] o1[of "r + M"] by simp
    next
      case d
      then have "r - M < m" "r - M \<noteq> j0" "r - M \<noteq> j0 + M" "r \<noteq> j0" "r \<noteq> j0 + M" "\<not> r < M"
        using m2 br(2) by simp_all
      then show ?thesis using d o' o1[OF br(2)] o1[of "r - M"] by simp
    next
      case e
      then show ?thesis using o' o1[OF br(2)] j0 by simp
    next
      case f
      then show ?thesis using o' o1[OF br(2)] j0 by simp
    qed
  qed
  with step out'(1,2) show ?case by simp
qed

lemma butterfly_j_stage:
  fixes s :: nat and wm :: complex
  defines "M \<equiv> 2 ^ s"
  defines "m \<equiv> 2 * 2 ^ s"
  assumes "length out = B * m"
  shows "\<exists>out'. butterfly_j (B * m) s wm 1 0 out = Inr out' \<and> length out' = B * m \<and>
           (\<forall>b<B. \<forall>r<M.
              out' ! (b * m + r) = out ! (b * m + r) + wm ^ r * out ! (b * m + (r + M)) \<and>
              out' ! (b * m + (r + M)) = out ! (b * m + r) - wm ^ r * out ! (b * m + (r + M)))"
proof -
  from butterfly_j_blocks[of out B s 0 wm] assms(3)
  obtain out' where out': "butterfly_j (B * m) s wm 1 0 out = Inr out'" "length out' = B * m"
    "\<forall>b<B. \<forall>r<m. out' ! (b * m + r) =
              (if r < M then out ! (b * m + r) + wm ^ r * out ! (b * m + (r + M))
               else if M \<le> r then out ! (b * m + (r - M)) - wm ^ (r - M) * out ! (b * m + r)
               else out ! (b * m + r))"
    by (auto simp add: M_def m_def)
  have "out' ! (b * m + r) = out ! (b * m + r) + wm ^ r * out ! (b * m + (r + M)) \<and>
        out' ! (b * m + (r + M)) = out ! (b * m + r) - wm ^ r * out ! (b * m + (r + M))"
    if "b < B" "r < M" for b r
  proof -
    have "r < m" "r + M < m" using that(2) by (simp_all add: m_def M_def)
    from out'(3)[rule_format, OF that(1) this(1)] out'(3)[rule_format, OF that(1) this(2)] that(2)
    show ?thesis by simp
  qed
  with out'(1,2) show ?thesis by blast
qed

section \<open>One stage\<close>

lemma bit_reversed_index:
  assumes "n \<le> 32"
  shows "bit (reversed_index n i) k \<longleftrightarrow> k < n \<and> bit i (n - 1 - k)"
proof -
  have "k < n \<Longrightarrow> n - 1 - k < 32" using assms by simp
  then show ?thesis
    unfolding reversed_index_def
    by (auto simp add: bit_unsigned_iff bit_reverse_low[OF assms] bit_of_nat_iff)
qed

lemma reversed_index_zero: "reversed_index 0 i = 0"
  by (rule bit_eqI) (simp add: bit_reversed_index)

lemma reversed_index_even:
  assumes "Suc n \<le> 32"
  shows "reversed_index (Suc n) (2 * b) = reversed_index n b"
proof (rule bit_eqI)
  fix k
  have n: "n \<le> 32" using assms by simp
  have "k < n \<Longrightarrow> n - k - 1 = n - 1 - k" by simp
  then show "bit (reversed_index (Suc n) (2 * b)) k = bit (reversed_index n b) k"
    unfolding bit_reversed_index[OF assms] bit_reversed_index[OF n]
    by (auto simp add: bit_double_iff)
qed

lemma reversed_index_odd:
  assumes "Suc n \<le> 32"
  shows "reversed_index (Suc n) (2 * b + 1) = 2 ^ n + reversed_index n b"
proof (rule bit_eqI)
  fix k
  have n: "n \<le> 32" using assms by simp
  have disj: "\<not> bit ((2::nat) ^ n) j \<or> \<not> bit (reversed_index n b) j" for j
    by (auto simp add: bit_exp_iff bit_reversed_index[OF n])
  have "bit (2 ^ n + reversed_index n b) k \<longleftrightarrow> k = n \<or> (k < n \<and> bit b (n - 1 - k))"
    unfolding bit_disjunctive_add_iff[of "2 ^ n" "reversed_index n b", OF disj]
    by (auto simp add: bit_exp_iff bit_reversed_index[OF n])
  moreover have "bit (2 * b + 1) j \<longleftrightarrow> j = 0 \<or> bit b (j - 1)" for j
    using even_bit_succ_iff[of "2 * b" j] by (auto simp add: bit_double_iff)
  then have "bit (reversed_index (Suc n) (2 * b + 1)) k \<longleftrightarrow> k = n \<or> (k < n \<and> bit b (n - 1 - k))"
    unfolding bit_reversed_index[OF assms] by auto
  ultimately show "bit (reversed_index (Suc n) (2 * b + 1)) k = bit (2 ^ n + reversed_index n b) k"
    by simp
qed

lemma stage_step:
  assumes inv: "stage_inv d n x c0 s out" and s: "s < n" and n: "n \<le> 32"
    and d: "d = 1 \<or> d = - 1"
  shows "\<exists>out'. butterfly_j (2 ^ n) s (unit_root d (Suc s)) 1 0 out = Inr out' \<and>
           stage_inv d n x c0 (Suc s) out'"
proof -
  let ?M = "(2::nat) ^ s" and ?m = "2 * (2::nat) ^ s" and ?B = "(2::nat) ^ (n - Suc s)"
  let ?w = "unit_root d (Suc s)"
  have ns: "n - s = Suc (n - Suc s)" using s by simp
  have N: "?B * ?m = 2 ^ n"
  proof -
    have "?B * ?m = 2 ^ (n - Suc s + Suc s)" by (simp add: power_add)
    then show ?thesis using s by simp
  qed
  have blocks: "(2::nat) ^ (n - s) = 2 * ?B" unfolding ns by simp
  have len: "length out = ?B * ?m" using inv N by (simp add: stage_inv_def)
  from butterfly_j_stage[OF len, of ?w]
  obtain out' where out': "butterfly_j (?B * ?m) s ?w 1 0 out = Inr out'" "length out' = ?B * ?m"
    "\<forall>b<?B. \<forall>r<?M.
        out' ! (b * ?m + r) = out ! (b * ?m + r) + ?w ^ r * out ! (b * ?m + (r + ?M)) \<and>
        out' ! (b * ?m + (r + ?M)) = out ! (b * ?m + r) - ?w ^ r * out ! (b * ?m + (r + ?M))"
    by blast
  have old: "out ! (b * ?M + r) = c0 * sub_dft d n x s (reversed_index (n - s) b) r"
    if "b < 2 * ?B" "r < ?M" for b r
    using inv that blocks by (simp add: stage_inv_def)
  have le: "Suc (n - Suc s) \<le> 32" using n s by simp
  have rev: "reversed_index (n - s) (2 * b) = reversed_index (n - Suc s) b"
    "reversed_index (n - s) (2 * b + 1) = 2 ^ (n - Suc s) + reversed_index (n - Suc s) b" for b
    unfolding ns by (rule reversed_index_even[OF le], rule reversed_index_odd[OF le])
  have new: "out' ! (b * ?m + r') = c0 * sub_dft d n x (Suc s) (reversed_index (n - Suc s) b) r'"
    if b: "b < ?B" and r': "r' < ?m" for b r'
  proof -
    let ?c = "reversed_index (n - Suc s) b"
    have lo: "out ! (b * ?m + r) = c0 * sub_dft d n x s ?c r" if "r < ?M" for r
    proof -
      have e: "b * ?m + r = (2 * b) * ?M + r" by simp
      have "2 * b < 2 * ?B" using b by simp
      from old[OF this that] show ?thesis unfolding e rev(1) .
    qed
    have hi: "out ! (b * ?m + (r + ?M)) = c0 * sub_dft d n x s (?c + 2 ^ (n - Suc s)) r" if "r < ?M" for r
    proof -
      have e: "b * ?m + (r + ?M) = (2 * b + 1) * ?M + r" by (simp add: algebra_simps)
      have "2 * b + 1 < 2 * ?B" using b by simp
      from old[OF this that] show ?thesis
        unfolding e rev(2) by (simp only: add.commute[of "2 ^ (n - Suc s)"])
    qed
    show ?thesis
    proof (cases "r' < ?M")
      case True
      from out'(3)[rule_format, OF b True]
      have "out' ! (b * ?m + r') = c0 * sub_dft d n x s ?c r'
              + ?w ^ r' * (c0 * sub_dft d n x s (?c + 2 ^ (n - Suc s)) r')"
        using lo[OF True] hi[OF True] by simp
      also have "\<dots> = c0 * sub_dft d n x (Suc s) ?c r'"
        unfolding sub_dft_butterfly(1)[OF s d] by (simp add: algebra_simps)
      finally show ?thesis .
    next
      case False
      define r where "r = r' - ?M"
      have r: "r < ?M" "r' = r + ?M" using False r' by (simp_all add: r_def)
      from out'(3)[rule_format, OF b r(1)]
      have "out' ! (b * ?m + r') = c0 * sub_dft d n x s ?c r
              - ?w ^ r * (c0 * sub_dft d n x s (?c + 2 ^ (n - Suc s)) r)"
        using lo[OF r(1)] hi[OF r(1)] r(2) by simp
      also have "\<dots> = c0 * sub_dft d n x (Suc s) ?c r'"
        unfolding r(2) sub_dft_butterfly(2)[OF s d] by (simp add: algebra_simps)
      finally show ?thesis .
    qed
  qed
  have "stage_inv d n x c0 (Suc s) out'"
    unfolding stage_inv_def using out'(2) N new by simp
  with out'(1) N show ?thesis by simp
qed

section \<open>All stages\<close>

lemma butterfly_s_stages:
  assumes "stage_inv d n x c0 s out" and "s \<le> n" and "n \<le> 32" and "d = 1 \<or> d = - 1"
    and "\<forall>t<n. wm t = unit_root d (Suc t)"
  shows "\<exists>out'. butterfly_s (2 ^ n) n wm s out = Inr out' \<and> stage_inv d n x c0 n out'"
  using assms(1,2)
proof (induction "n - s" arbitrary: s out)
  case 0
  then have "s = n" by simp
  then have "butterfly_s (2 ^ n) n wm s out = Inr out"
    by (subst butterfly_s.simps) simp
  then show ?case using "0.prems"(1) \<open>s = n\<close> by simp
next
  case (Suc k)
  then have s: "s < n" by simp
  from stage_step[OF Suc.prems(1) s assms(3,4)]
  obtain out1 where out1: "butterfly_j (2 ^ n) s (unit_root d (Suc s)) 1 0 out = Inr out1"
    "stage_inv d n x c0 (Suc s) out1"
    by blast
  have step: "butterfly_s (2 ^ n) n wm s out = butterfly_s (2 ^ n) n wm (Suc s) out1"
    using s out1(1) assms(5) by (subst butterfly_s.simps) simp
  have "k = n - Suc s" "Suc s \<le> n" using Suc.hyps(2) s by simp_all
  from Suc.hyps(1)[OF this(1) out1(2) this(2)] step show ?case by simp
qed

lemma stage_inv_initial:
  assumes "length out = 2 ^ n" and "\<forall>i<2 ^ n. out ! i = c0 * x (reversed_index n i)"
  shows "stage_inv d n x c0 0 out"
  using assms by (simp add: stage_inv_def sub_dft_zero)

lemma stage_inv_final:
  assumes "stage_inv d n x c0 n out"
  shows "out = map (\<lambda>k. c0 * sub_dft d n x n 0 k) [0..<2 ^ n]"
proof (rule nth_equalityI)
  show "length out = length (map (\<lambda>k. c0 * sub_dft d n x n 0 k) [0..<2 ^ n])"
    using assms by (simp add: stage_inv_def)
next
  fix i assume "i < length out"
  then have i: "i < 2 ^ n" using assms by (simp add: stage_inv_def)
  from assms have "\<forall>r<2 ^ n. out ! (0 * 2 ^ n + r) = c0 * sub_dft d n x n (reversed_index (n - n) 0) r"
    unfolding stage_inv_def by simp
  then have "out ! i = c0 * sub_dft d n x n 0 i"
    using i by (simp add: reversed_index_zero)
  then show "out ! i = map (\<lambda>k. c0 * sub_dft d n x n 0 k) [0..<2 ^ n] ! i"
    using i by simp
qed

lemma butterfly_s_dft:
  assumes "length input = 2 ^ n" and "n \<le> 32" and "d = 1 \<or> d = - 1"
    and "\<forall>t<n. wm t = unit_root d (Suc t)"
  shows "butterfly_s (2 ^ n) n wm 0
           (map (\<lambda>i. complex_of_real (1 / sqrt (2 ^ n)) * input ! reversed_index n i) [0..<2 ^ n])
         = Inr (dft_list d n input)"
proof -
  let ?c0 = "complex_of_real (1 / sqrt (2 ^ n))"
  let ?out = "map (\<lambda>i. ?c0 * input ! reversed_index n i) [0..<2 ^ n]"
  have "stage_inv d n (\<lambda>i. input ! i) ?c0 0 ?out"
    by (rule stage_inv_initial) simp_all
  from butterfly_s_stages[OF this _ assms(2,3,4)]
  obtain out' where "butterfly_s (2 ^ n) n wm 0 ?out = Inr out'"
    "stage_inv d n (\<lambda>i. input ! i) ?c0 n out'"
    by auto
  then show ?thesis
    using stage_inv_final[of d n "\<lambda>i. input ! i" ?c0 out'] by (simp add: dft_list_def)
qed

lemma sub_dft_cong:
  assumes "\<forall>i<2 ^ n. x i = y i"
  shows "sub_dft d n x n 0 k = sub_dft d n y n 0 k"
  unfolding sub_dft_def using assms by (intro sum.cong refl) simp

lemma dft_list_inverse:
  assumes "length input = 2 ^ n"
  shows "dft_list (- 1) n (dft_list 1 n input) = input"
proof (rule nth_equalityI)
  show "length (dft_list (- 1) n (dft_list 1 n input)) = length input"
    using assms by (simp add: dft_list_def)
next
  fix l assume "l < length (dft_list (- 1) n (dft_list 1 n input))"
  then have l: "l < 2 ^ n" by (simp add: dft_list_def)
  let ?c0 = "complex_of_real (1 / sqrt (2 ^ n))"
  let ?x = "\<lambda>i. input ! i"
  have "\<forall>k<2 ^ n. dft_list 1 n input ! k = ?c0 * sub_dft 1 n ?x n 0 k"
    by (simp add: dft_list_def)
  then have "sub_dft (- 1) n (\<lambda>i. dft_list 1 n input ! i) n 0 l
           = sub_dft (- 1) n (\<lambda>k. ?c0 * sub_dft 1 n ?x n 0 k) n 0 l"
    by (rule sub_dft_cong)
  then have "dft_list (- 1) n (dft_list 1 n input) ! l
           = ?c0 * sub_dft (- 1) n (\<lambda>k. ?c0 * sub_dft 1 n ?x n 0 k) n 0 l"
    using l by (simp add: dft_list_def)
  also have "\<dots> = input ! l"
    using l by (rule dft_inverse) simp
  finally show "dft_list (- 1) n (dft_list 1 n input) ! l = input ! l" .
qed

lemma length_dft_list: "length (dft_list d n input) = 2 ^ n"
  by (simp add: dft_list_def)

section \<open>The transforms\<close>

lemma isPowerOf2_i64_all: "\<forall>n<32. isPowerOf2 (2 ^ n :: i64)"
  unfolding all_less_32
  by (simp add: isPowerOf2_def word_sless_alt)

lemma read_at_nat:
  assumes "i < length xs"
  shows "read_at xs (int i) = Inr (xs ! i)"
  using assms by (simp add: read_at_def)

lemma detail_fft_dft:
  assumes "length input = 2 ^ n" and "1 \<le> n" and "n \<le> 30"
  shows "detail_fft input dir = Inr (dft_list (direction_value dir) n input)"
proof -
  have n31: "n \<le> 31" and n32: "n \<le> 32" and nlt: "n < 32" using assms(3) by simp_all
  let ?c0 = "complex_of_real (1 / sqrt (2 ^ n))"
  have p64: "isPowerOf2 (2 ^ n :: i64)"
    using isPowerOf2_i64_all nlt by simp
  have lg: "log2OfPowerOf2 (2 ^ n :: u32) = Inr (int n)"
    using log2OfPowerOf2_exp(2)[OF assms(3)] by simp
  have each: "(case bitReverse (word_of_nat i) (int n) of
                 Inl e \<Rightarrow> Inl e
               | Inr r \<Rightarrow> (case read_at input (uint r) of
                             Inl e \<Rightarrow> Inl e
                           | Inr v \<Rightarrow> Inr (?c0 * v)))
              = Inr (?c0 * input ! reversed_index n i)"
    if "i \<in> set [0..<2 ^ n]" for i
  proof -
    from that have i: "i < 2 ^ n" by simp
    note b = bitReverse_index[OF assms(2) n31 i]
    have "uint (reverse_low n (word_of_nat i)) = int (reversed_index n i)"
      by (simp add: reversed_index_def)
    moreover have "reversed_index n i < length input"
      using reversed_index_less[OF assms(2) n31 i] assms(1) by simp
    ultimately show ?thesis
      using b(1) by (simp add: read_at_nat)
  qed
  have tr: "traverse
              (\<lambda>i. case bitReverse (word_of_nat i) (int n) of
                      Inl e \<Rightarrow> Inl e
                    | Inr r \<Rightarrow> (case read_at input (uint r) of
                                  Inl e \<Rightarrow> Inl e
                                | Inr v \<Rightarrow> Inr (?c0 * v)))
              [0..<2 ^ n]
            = Inr (map (\<lambda>i. ?c0 * input ! reversed_index n i) [0..<2 ^ n])"
    by (rule traverse_map) (rule each)
  have d: "direction_value dir = 1 \<or> direction_value dir = - 1"
    by (cases dir) simp_all
  have wm: "\<forall>t<n. cis (direction_value dir * pi / 2 ^ t) = unit_root (direction_value dir) (Suc t)"
    by (simp add: unit_root_Suc_stage)
  note bfly = butterfly_s_dft[OF assms(1) n32 d wm]
  show ?thesis
    unfolding detail_fft_def Let_def assms(1) of_nat_power of_nat_numeral
    by (simp only: p64 lg tr bfly nat_int sum.case if_False simp_thms)
qed

lemma FFTCalculator_permute:
  assumes "FFTCalculator_new (2 ^ n) = Inr c" and "length input = 2 ^ n" and "1 \<le> n" and "n \<le> 30"
  shows "permute_input c input =
           Inr (map (\<lambda>i. complex_of_real (1 / sqrt (2 ^ n)) * input ! reversed_index n i) [0..<2 ^ n])"
    and "size_N c = 2 ^ n" and "log_n c = n"
    and "\<forall>t<n. z c ! t = unit_root 1 (Suc t)"
    and "\<forall>t<n. Complex (Re (z c ! t)) (- Im (z c ! t)) = unit_root (- 1) (Suc t)"
proof -
  have n31: "n \<le> 31" using assms(4) by simp
  have c: "c = \<lparr> size_N = 2 ^ n, log_n = n, nrm = 1 / sqrt (2 ^ n),
                 butterfly_indices = map (\<lambda>i. int (reversed_index n i)) [0..<2 ^ n],
                 z = map (\<lambda>s. cis (pi / 2 ^ s)) [0..<n] \<rparr>"
    using FFTCalculator_new_exp[OF assms(3,4)] assms(1) by simp
  show "size_N c = 2 ^ n" "log_n c = n" by (simp_all add: c)
  show "\<forall>t<n. z c ! t = unit_root 1 (Suc t)"
    by (simp add: c unit_root_Suc_stage)
  show "\<forall>t<n. Complex (Re (z c ! t)) (- Im (z c ! t)) = unit_root (- 1) (Suc t)"
    by (simp add: c unit_root_Suc_stage complex_eq_iff)
  have each: "(case read_at (butterfly_indices c) (int i) of
                 Inl e \<Rightarrow> Inl e
               | Inr b \<Rightarrow> (case read_at input b of
                             Inl e \<Rightarrow> Inl e
                           | Inr v \<Rightarrow> Inr (complex_of_real (nrm c) * v)))
              = Inr (complex_of_real (1 / sqrt (2 ^ n)) * input ! reversed_index n i)"
    if "i \<in> set [0..<2 ^ n]" for i
  proof -
    from that have i: "i < 2 ^ n" by simp
    have "read_at (butterfly_indices c) (int i) = Inr (int (reversed_index n i))"
      using i by (simp add: c read_at_def)
    moreover have "reversed_index n i < length input"
      using reversed_index_less[OF assms(3) n31 i] assms(2) by simp
    ultimately show ?thesis
      by (simp add: read_at_nat c)
  qed
  show "permute_input c input =
           Inr (map (\<lambda>i. complex_of_real (1 / sqrt (2 ^ n)) * input ! reversed_index n i) [0..<2 ^ n])"
    unfolding permute_input_def \<open>size_N c = 2 ^ n\<close>
    by (rule traverse_map) (rule each)
qed

lemma FFTCalculator_dft:
  assumes "FFTCalculator_new (2 ^ n) = Inr c" and "length input = 2 ^ n" and "1 \<le> n" and "n \<le> 30"
  shows "FFTCalculator_fft c input = Inr (dft_list 1 n input)"
    and "FFTCalculator_ifft c input = Inr (dft_list (- 1) n input)"
proof -
  note p = FFTCalculator_permute[OF assms]
  have n32: "n \<le> 32" using assms(4) by simp
  show "FFTCalculator_fft c input = Inr (dft_list 1 n input)"
    unfolding FFTCalculator_fft_def p(1,2,3)
    using butterfly_s_dft[OF assms(2) n32 _ p(4)] by simp
  show "FFTCalculator_ifft c input = Inr (dft_list (- 1) n input)"
    unfolding FFTCalculator_ifft_def p(1,2,3)
    using butterfly_s_dft[OF assms(2) n32 _ p(5)] by simp
qed

text \<open>
  C1, as the code has it. For a signal of length \<open>2^n\<close> with \<open>1 \<le> n \<le> 30\<close> the free
  function \<^verbatim>\<open>fft\<close> returns the transform normalised by \<open>1 / sqrt N\<close>, and \<^verbatim>\<open>ifft\<close>
  applied to that result returns the signal; an \<^verbatim>\<open>FFTCalculator\<close> of that size can be
  constructed and its members \<^verbatim>\<open>fft\<close> and \<^verbatim>\<open>ifft\<close> return the same two results. The
  arithmetic of the model is exact, so the signal comes back exactly.
\<close>

theorem fft_ifft_round_trip:
  assumes "length x = 2 ^ n" and "1 \<le> n" and "n \<le> 30"
  shows "fft x = Inr (dft_list 1 n x) \<and> ifft (dft_list 1 n x) = Inr x \<and>
         (\<exists>c. FFTCalculator_new (2 ^ n) = Inr c \<and>
            FFTCalculator_fft c x = Inr (dft_list 1 n x) \<and>
            FFTCalculator_ifft c (dft_list 1 n x) = Inr x)"
proof -
  let ?y = "dft_list 1 n x"
  have ly: "length ?y = 2 ^ n" by (rule length_dft_list)
  have "fft x = Inr ?y"
    using detail_fft_dft[OF assms, of Forward] by (simp add: fft_def)
  moreover have "ifft ?y = Inr x"
    using detail_fft_dft[OF ly assms(2,3), of Backward] dft_list_inverse[OF assms(1)]
    by (simp add: ifft_def)
  moreover from FFTCalculator_new_exp[OF assms(2,3)]
  obtain c where c: "FFTCalculator_new (2 ^ n) = Inr c" by blast
  have "FFTCalculator_fft c x = Inr ?y"
    using FFTCalculator_dft(1)[OF c assms] .
  moreover have "FFTCalculator_ifft c ?y = Inr x"
    using FFTCalculator_dft(2)[OF c ly assms(2,3)] dft_list_inverse[OF assms(1)] by simp
  ultimately show ?thesis using c by blast
qed

theorem fft_ifft_round_trip_witness:
  "length [1, 2, 3, 4 :: complex] = 2 ^ 2 \<and>
   (\<exists>y. fft [1, 2, 3, 4] = Inr y \<and> ifft y = Inr [1, 2, 3, 4]) \<and>
   (\<exists>c y. FFTCalculator_new 4 = Inr c \<and> FFTCalculator_fft c [1, 2, 3, 4] = Inr y \<and>
      FFTCalculator_ifft c y = Inr [1, 2, 3, 4])"
proof -
  have h: "length [1, 2, 3, 4 :: complex] = 2 ^ 2" "(1::nat) \<le> 2" "(2::nat) \<le> 30"
    by simp_all
  note t = fft_ifft_round_trip[OF h]
  from t have "\<exists>y. fft [1, 2, 3, 4] = Inr y \<and> ifft y = Inr [1, 2, 3, 4]"
    by blast
  moreover from t have "\<exists>c y. FFTCalculator_new (2 ^ 2) = Inr c \<and>
      FFTCalculator_fft c [1, 2, 3, 4] = Inr y \<and> FFTCalculator_ifft c y = Inr [1, 2, 3, 4]"
    by blast
  ultimately show ?thesis using h(1) by simp
qed

text \<open>
  Two power-of-two lengths for which no transform returns. A signal of length 1 passes
  \<^verbatim>\<open>isPowerOf2\<close>, but \<^verbatim>\<open>log_n\<close> is 0 and the first loop calls \<^verbatim>\<open>bitReverse(0, 0)\<close>,
  whose assertion \<open>nb > 0\<close> fails; the constructor of \<^verbatim>\<open>FFTCalculator<T, 1>\<close> fails in
  the same way. A signal of length \<open>2^31\<close> passes \<^verbatim>\<open>isPowerOf2\<close> as a
  \<^verbatim>\<open>ptrdiff_t\<close>, but its size cast to \<^verbatim>\<open>int\<close> is negative and the assertion of
  \<^verbatim>\<open>log2OfPowerOf2\<close> fails.
\<close>

theorem fft_lengths_counterexample:
  "isPowerOf2 (word_of_nat (length [1 :: complex]) :: i64) \<and>
   fft [1] = Inl AssertionFailed \<and> ifft [1] = Inl AssertionFailed \<and>
   FFTCalculator_new 1 = Inl AssertionFailed \<and>
   isPowerOf2 (word_of_nat (length (replicate (2 ^ 31) (0 :: complex))) :: i64) \<and>
   fft (replicate (2 ^ 31) 0) = Inl AssertionFailed \<and>
   ifft (replicate (2 ^ 31) 0) = Inl AssertionFailed"
  by (simp add: fft_def ifft_def detail_fft_def FFTCalculator_new_def isPowerOf2_def
      word_sless_alt log2OfPowerOf2_def deBruijnBitPosition2_def bitReverse_def
      bitReverse_int_def Let_def)

lemma transforms_of_length_one:
  "fft [x] = Inl AssertionFailed" "ifft [x] = Inl AssertionFailed"
  by (simp_all add: fft_def ifft_def detail_fft_def isPowerOf2_def word_sless_alt
      log2OfPowerOf2_def deBruijnBitPosition2_def bitReverse_def Let_def)

end
